theory Spec2Isabelle
  imports Main "HOL-Library.Multiset"
begin

section \<open>JavaScript strings\<close>

text \<open>
  A JavaScript string is a sequence of UTF-16 code units. A code unit is modelled by its
  number, so that the two delimiters of the placeholder token, U+2282 and U+2283, are
  single elements, exactly as \<^verbatim>\<open>String.prototype.replace\<close> and the scanner's
  regular expression (which has no \<^verbatim>\<open>u\<close> flag) see them.
\<close>

type_synonym jsstring = "nat list"

definition str :: "string \<Rightarrow> jsstring" where
  "str s = map of_char s"

text \<open>Decimal digits of a non-negative integer, as \<^verbatim>\<open>Number.prototype.toString\<close> prints them.\<close>

fun digits :: "nat \<Rightarrow> jsstring" where
  "digits n = (if n < 10 then [48 + n] else digits (n div 10) @ [48 + n mod 10])"

declare digits.simps [simp del]

text \<open>
  Helper weights (the values \<^verbatim>\<open>weight()\<close> returns) are modelled as integers;
  fractional weights, NaN and infinities are outside the model.
\<close>

definition number_to_string :: "int \<Rightarrow> jsstring" where
  "number_to_string w = (if w < 0 then 45 # digits (nat (- w)) else digits (nat w))"

text \<open>The token \<^verbatim>\<open>'\<subset>\<subset>' + bindingIndex + '\<supset>\<supset>'\<close> of \<^verbatim>\<open>parser.parse\<close> and \<^verbatim>\<open>parser.execute\<close>.\<close>

definition placeholder :: "nat \<Rightarrow> jsstring" where
  "placeholder n = [8834, 8834] @ digits n @ [8835, 8835]"

section \<open>JSON.parse\<close>

text \<open>
  \<^verbatim>\<open>JSON.parse\<close> is a built-in of the language; it is modelled after the JSON grammar of
  ECMA-404, which ECMAScript follows. A number is kept as its lexeme (no conversion to a
  double), an object as the list of its members in order of first appearance, a repeated
  key keeping its place and taking the last value.
\<close>

datatype json =
    JNull
  | JBool bool
  | JNum jsstring
  | JStr jsstring
  | JArr "json list"
  | JObj "(jsstring \<times> json) list"

definition is_ws :: "nat \<Rightarrow> bool" where
  "is_ws c = (c = 32 \<or> c = 9 \<or> c = 10 \<or> c = 13)"

definition skip_ws :: "jsstring \<Rightarrow> jsstring" where
  "skip_ws s = dropWhile is_ws s"

definition is_digit :: "nat \<Rightarrow> bool" where
  "is_digit c = (48 \<le> c \<and> c \<le> 57)"

definition hex_value :: "nat \<Rightarrow> nat option" where
  "hex_value c =
     (if 48 \<le> c \<and> c \<le> 57 then Some (c - 48)
      else if 65 \<le> c \<and> c \<le> 70 then Some (c - 55)
      else if 97 \<le> c \<and> c \<le> 102 then Some (c - 87)
      else None)"

definition hex4 :: "jsstring \<Rightarrow> nat option" where
  "hex4 s =
     (case map hex_value (take 4 s) of
        [Some a, Some b, Some c, Some d] \<Rightarrow> Some (((a * 16 + b) * 16 + c) * 16 + d)
      | _ \<Rightarrow> None)"

definition escape_char :: "nat \<Rightarrow> nat option" where
  "escape_char e =
     (if e = 34 then Some 34
      else if e = 92 then Some 92
      else if e = 47 then Some 47
      else if e = 98 then Some 8
      else if e = 102 then Some 12
      else if e = 110 then Some 10
      else if e = 114 then Some 13
      else if e = 116 then Some 9
      else None)"

text \<open>The characters of a string literal after its first quote, up to the quote that ends it.\<close>

fun string_chars :: "jsstring \<Rightarrow> (jsstring \<times> jsstring) option" where
  "string_chars [] = None"
| "string_chars [c] = (if c = 34 then Some ([], []) else None)"
| "string_chars (c # e # r) =
     (if c = 34 then Some ([], e # r)
      else if c = 92 then
        (if e = 117 then
           (case hex4 r of
              None \<Rightarrow> None
            | Some u \<Rightarrow> map_option (\<lambda>(s, t). (u # s, t)) (string_chars (drop 4 r)))
         else
           (case escape_char e of
              None \<Rightarrow> None
            | Some u \<Rightarrow> map_option (\<lambda>(s, t). (u # s, t)) (string_chars r)))
      else if c < 32 then None
      else map_option (\<lambda>(s, t). (c # s, t)) (string_chars (e # r)))"

text \<open>
  \<^verbatim>\<open>-? (0 | [1-9][0-9]*) (. [0-9]+)? ([eE] [+-]? [0-9]+)?\<close>; the result is the lexeme and
  the rest of the input.
\<close>

definition number_int :: "jsstring \<Rightarrow> (jsstring \<times> jsstring) option" where
  "number_int s =
     (let ds = takeWhile is_digit s in
      if ds = [] then None
      else if hd ds = 48 then Some ([48], tl s)
      else Some (ds, dropWhile is_digit s))"

definition number_frac :: "jsstring \<Rightarrow> (jsstring \<times> jsstring) option" where
  "number_frac s =
     (case s of
        [] \<Rightarrow> Some ([], [])
      | c # r \<Rightarrow>
          if c = 46 then
            (let ds = takeWhile is_digit r in
             if ds = [] then None else Some (46 # ds, dropWhile is_digit r))
          else Some ([], s))"

definition number_exp :: "jsstring \<Rightarrow> (jsstring \<times> jsstring) option" where
  "number_exp s =
     (case s of
        [] \<Rightarrow> Some ([], [])
      | c # r \<Rightarrow>
          if c = 101 \<or> c = 69 then
            (let sg = (case r of [] \<Rightarrow> [] | g # _ \<Rightarrow> if g = 43 \<or> g = 45 then [g] else []);
                 r1 = drop (length sg) r;
                 ds = takeWhile is_digit r1 in
             if ds = [] then None else Some (c # sg @ ds, dropWhile is_digit r1))
          else Some ([], s))"

definition number_lexeme :: "jsstring \<Rightarrow> (jsstring \<times> jsstring) option" where
  "number_lexeme s =
     (let sg = (case s of [] \<Rightarrow> [] | c # _ \<Rightarrow> if c = 45 then [c] else []) in
      case number_int (drop (length sg) s) of
        None \<Rightarrow> None
      | Some (i, r1) \<Rightarrow>
          (case number_frac r1 of
             None \<Rightarrow> None
           | Some (f, r2) \<Rightarrow>
               (case number_exp r2 of
                  None \<Rightarrow> None
                | Some (e, r3) \<Rightarrow> Some (sg @ i @ f @ e, r3))))"

definition expect :: "nat \<Rightarrow> jsstring \<Rightarrow> jsstring option" where
  "expect ch s = (case skip_ws s of [] \<Rightarrow> None | c # r \<Rightarrow> if c = ch then Some r else None)"

fun obj_put :: "jsstring \<Rightarrow> json \<Rightarrow> (jsstring \<times> json) list \<Rightarrow> (jsstring \<times> json) list" where
  "obj_put k v [] = [(k, v)]"
| "obj_put k v ((k', v') # ms) = (if k = k' then (k, v) # ms else (k', v') # obj_put k v ms)"

text \<open>
  Recursive descent. The first argument bounds the number of nested calls; every call is
  preceded by at most one call that reads no character, so twice the length of the
  input (plus two) is never exhausted (\<open>JSON_parse_fuel\<close> below).
\<close>

fun json_value :: "nat \<Rightarrow> jsstring \<Rightarrow> (json \<times> jsstring) option"
  and json_elements :: "nat \<Rightarrow> jsstring \<Rightarrow> json list \<Rightarrow> (json \<times> jsstring) option"
  and json_members :: "nat \<Rightarrow> jsstring \<Rightarrow> (jsstring \<times> json) list \<Rightarrow> (json \<times> jsstring) option"
where
  "json_value 0 s = None"
| "json_value (Suc n) s =
     (case skip_ws s of
        [] \<Rightarrow> None
      | c # r \<Rightarrow>
          if c = 123 then
            (case expect 125 r of Some r' \<Rightarrow> Some (JObj [], r') | None \<Rightarrow> json_members n r [])
          else if c = 91 then
            (case expect 93 r of Some r' \<Rightarrow> Some (JArr [], r') | None \<Rightarrow> json_elements n r [])
          else if c = 34 then map_option (\<lambda>(t, r'). (JStr t, r')) (string_chars r)
          else if take 4 (c # r) = str ''true'' then Some (JBool True, drop 4 (c # r))
          else if take 5 (c # r) = str ''false'' then Some (JBool False, drop 5 (c # r))
          else if take 4 (c # r) = str ''null'' then Some (JNull, drop 4 (c # r))
          else map_option (\<lambda>(t, r'). (JNum t, r')) (number_lexeme (c # r)))"
| "json_elements 0 s acc = None"
| "json_elements (Suc n) s acc =
     (case json_value n s of
        None \<Rightarrow> None
      | Some (v, r) \<Rightarrow>
          (case expect 44 r of
             Some r' \<Rightarrow> json_elements n r' (acc @ [v])
           | None \<Rightarrow>
               (case expect 93 r of
                  Some r' \<Rightarrow> Some (JArr (acc @ [v]), r')
                | None \<Rightarrow> None)))"
| "json_members 0 s acc = None"
| "json_members (Suc n) s acc =
     (case expect 34 s of
        None \<Rightarrow> None
      | Some r \<Rightarrow>
          (case string_chars r of
             None \<Rightarrow> None
           | Some (k, r1) \<Rightarrow>
               (case expect 58 r1 of
                  None \<Rightarrow> None
                | Some r2 \<Rightarrow>
                    (case json_value n r2 of
                       None \<Rightarrow> None
                     | Some (v, r3) \<Rightarrow>
                         (case expect 44 r3 of
                            Some r4 \<Rightarrow> json_members n r4 (obj_put k v acc)
                          | None \<Rightarrow>
                              (case expect 125 r3 of
                                 Some r4 \<Rightarrow> Some (JObj (obj_put k v acc), r4)
                               | None \<Rightarrow> None))))))"

definition JSON_parse :: "jsstring \<Rightarrow> json option" where
  "JSON_parse s =
     (case json_value (2 * length s + 2) s of
        None \<Rightarrow> None
      | Some (v, r) \<Rightarrow> if skip_ws r = [] then Some v else None)"

text \<open>Reading a property (\<^verbatim>\<open>command.gitdown\<close>; \<open>None\<close> is \<^verbatim>\<open>undefined\<close>) and \<^verbatim>\<open>delete\<close>.\<close>

fun get_property :: "json \<Rightarrow> jsstring \<Rightarrow> json option" where
  "get_property (JObj ms) k = map_of ms k"
| "get_property _ k = None"

fun delete_property :: "json \<Rightarrow> jsstring \<Rightarrow> json" where
  "delete_property (JObj ms) k = JObj (filter (\<lambda>m. fst m \<noteq> k) ms)"
| "delete_property v k = v"

section \<open>The parser\<close>

datatype error =
    SyntaxError      \<comment> \<open>thrown by \<^verbatim>\<open>JSON.parse\<close>\<close>
  | TypeError        \<comment> \<open>\<^verbatim>\<open>command.helper.weight()\<close> on a helper that is \<^verbatim>\<open>undefined\<close>\<close>
  | ReferenceError   \<comment> \<open>an identifier that no scope declares\<close>
  | HelperError      \<comment> \<open>a helper that throws, or whose promise is rejected\<close>
  | FileError        \<comment> \<open>thrown by \<^verbatim>\<open>fs.readFileSync\<close>\<close>

text \<open>
  A helper is a function object with a \<^verbatim>\<open>weight\<close> method. The helper modules themselves
  (\<^verbatim>\<open>./helpers/*.js\<close>) are not part of the source, so the registry \<^verbatim>\<open>Gitdown.helpers\<close> is
  a parameter of the model: it maps the value read from \<^verbatim>\<open>command.gitdown\<close> (\<open>None\<close> for
  \<^verbatim>\<open>undefined\<close>), converted by the language to a property key, to the helper stored there.
  \<open>None\<close> stands for a lookup that yields no helper object, on which
  \<^verbatim>\<open>command.helper.weight()\<close> throws a TypeError. The value of \<^verbatim>\<open>invoke\<close> is \<open>None\<close> when the
  helper throws or returns a rejected promise, and the string it (or its promise) yields
  otherwise.
\<close>

record helper =
  weight :: int
  invoke :: "jsstring \<Rightarrow> json \<Rightarrow> jsstring option"

type_synonym registry = "json option \<Rightarrow> helper option"

record command =
  bindingIndex :: nat
  name :: "json option"
  parameters :: json
  helper :: "helper option"
  executed :: bool

record state =
  markdown :: jsstring
  commands :: "command list"
  change :: bool

subsection \<open>The regular expression\<close>

text \<open>
  \<^verbatim>\<open>/<<({"gitdown"(?:[^}]+}))>>/g\<close>: the twelve characters \<^verbatim>\<open><<{"gitdown"\<close>, one or more
  code units other than \<^verbatim>\<open>}\<close>, then \<^verbatim>\<open>}>>\<close>. The greedy \<^verbatim>\<open>[^}]+\<close> stops at the first
  \<^verbatim>\<open>}\<close> and giving characters back never helps, since the next one must be \<^verbatim>\<open>}\<close>. The
  result is the matched text and the text after it.
\<close>

definition block_open :: jsstring where
  "block_open = str ''<<{\"gitdown\"''"

definition block_close :: jsstring where
  "block_close = str ''}>>''"

definition match_at :: "jsstring \<Rightarrow> (jsstring \<times> jsstring) option" where
  "match_at s =
     (if take 12 s = block_open then
        (let r = drop 12 s;
             y = takeWhile (\<lambda>c. c \<noteq> 125) r;
             r' = dropWhile (\<lambda>c. c \<noteq> 125) r in
         if y \<noteq> [] \<and> take 3 r' = block_close then Some (block_open @ y @ block_close, drop 3 r')
         else None)
      else None)"

text \<open>\<^verbatim>\<open>match.slice(2, -2)\<close>\<close>

definition slice_2_2 :: "jsstring \<Rightarrow> jsstring" where
  "slice_2_2 m = take (length m - 2 - 2) (drop 2 m)"

definition gitdown_key :: jsstring where
  "gitdown_key = str ''gitdown''"

subsection \<open>\<^verbatim>\<open>parser.parse\<close>\<close>

text \<open>
  \<^verbatim>\<open>markdown.replace(regex, callback)\<close> with the \<^verbatim>\<open>g\<close> flag: the matches are found from left
  to right in the original text, the search resuming after each match, and the callback's
  result replaces the match literally. The callback is the only writer of \<^verbatim>\<open>bindingIndex\<close>
  and of \<^verbatim>\<open>commands\<close>, which are threaded through. An exception of \<^verbatim>\<open>JSON.parse\<close> leaves
  the callback and \<^verbatim>\<open>parse\<close>.
\<close>

function scan :: "registry \<Rightarrow> jsstring \<Rightarrow> command list \<Rightarrow> nat \<Rightarrow> error + (jsstring \<times> command list \<times> nat)" where
  "scan H [] cmds idx = Inr ([], cmds, idx)"
| "scan H (c # cs) cmds idx =
     (case match_at (c # cs) of
        None \<Rightarrow>
          (case scan H cs cmds idx of
             Inl e \<Rightarrow> Inl e
           | Inr (md, cmds', idx') \<Rightarrow> Inr (c # md, cmds', idx'))
      | Some (m, rest) \<Rightarrow>
          (case JSON_parse (slice_2_2 m) of
             None \<Rightarrow> Inl SyntaxError
           | Some obj \<Rightarrow>
               (let nm = get_property obj gitdown_key;
                    idx1 = idx + 1;
                    cmds1 = cmds @ [\<lparr>bindingIndex = idx1, name = nm,
                                     parameters = delete_property obj gitdown_key,
                                     helper = H nm, executed = False\<rparr>] in
                case scan H rest cmds1 idx1 of
                  Inl e \<Rightarrow> Inl e
                | Inr (md, cmds', idx') \<Rightarrow> Inr (placeholder idx1 @ md, cmds', idx'))))"
  by pat_completeness auto
termination
  apply (relation "measure (\<lambda>(H, s, cmds, idx). length s)")
    apply simp
   apply simp
  apply (clarsimp simp: match_at_def Let_def split: if_splits)
  apply (rule le_less_trans [OF diff_le_self])
  apply (rule le_less_trans [OF length_dropWhile_le])
  apply simp
  done

text \<open>The second component of the result is the value of \<^verbatim>\<open>bindingIndex\<close> after the call.\<close>

definition parse :: "registry \<Rightarrow> jsstring \<Rightarrow> command list \<Rightarrow> nat \<Rightarrow> error + (state \<times> nat)" where
  "parse H md cmds bindingIndexStart =
     (case scan H md cmds bindingIndexStart of
        Inl e \<Rightarrow> Inl e
      | Inr (md', cmds', idx') \<Rightarrow>
          Inr (\<lparr>markdown = md', commands = cmds', change = (bindingIndexStart \<noteq> idx')\<rparr>, idx'))"

subsection \<open>\<^verbatim>\<open>String.prototype.replace\<close> with a string pattern\<close>

text \<open>
  The first occurrence of the pattern is replaced. The replacement is a string, so it goes
  through GetSubstitution: \<^verbatim>\<open>$$\<close> is a dollar, \<^verbatim>\<open>$&\<close> the matched text, \<^verbatim>\<open>$`\<close> the text
  before the match, \<^verbatim>\<open>$'\<close> the text after it; a string pattern has no captures, so every
  other \<^verbatim>\<open>$\<close> stands for itself.
\<close>

fun get_substitution :: "jsstring \<Rightarrow> jsstring \<Rightarrow> jsstring \<Rightarrow> jsstring \<Rightarrow> jsstring" where
  "get_substitution matched pre post [] = []"
| "get_substitution matched pre post [c] = [c]"
| "get_substitution matched pre post (c # d # r) =
     (if c = 36 then
        (if d = 36 then 36 # get_substitution matched pre post r
         else if d = 38 then matched @ get_substitution matched pre post r
         else if d = 96 then pre @ get_substitution matched pre post r
         else if d = 39 then post @ get_substitution matched pre post r
         else c # get_substitution matched pre post (d # r))
      else c # get_substitution matched pre post (d # r))"

fun index_of :: "jsstring \<Rightarrow> jsstring \<Rightarrow> nat option" where
  "index_of p [] = (if p = [] then Some 0 else None)"
| "index_of p (c # cs) =
     (if take (length p) (c # cs) = p then Some 0 else map_option Suc (index_of p cs))"

definition js_replace :: "jsstring \<Rightarrow> jsstring \<Rightarrow> jsstring \<Rightarrow> jsstring" where
  "js_replace p v t =
     (case index_of p t of
        None \<Rightarrow> t
      | Some k \<Rightarrow>
          (let pre = take k t; post = drop (k + length p) t in
           pre @ get_substitution p pre post v @ post))"

subsection \<open>\<^verbatim>\<open>Array.prototype.sort\<close> without a comparator\<close>

text \<open>
  The default order compares the elements' string conversions by code units. Only the
  first element of the sorted array is read, and elements with equal strings are equal
  numbers, so an insertion sort stands for whichever algorithm the engine uses.
\<close>

fun str_less :: "jsstring \<Rightarrow> jsstring \<Rightarrow> bool" where
  "str_less [] [] = False"
| "str_less [] (y # ys) = True"
| "str_less (x # xs) [] = False"
| "str_less (x # xs) (y # ys) = (x < y \<or> (x = y \<and> str_less xs ys))"

fun sort_insert :: "int \<Rightarrow> int list \<Rightarrow> int list" where
  "sort_insert x [] = [x]"
| "sort_insert x (y # ys) =
     (if str_less (number_to_string x) (number_to_string y) then x # y # ys
      else y # sort_insert x ys)"

definition js_sort :: "int list \<Rightarrow> int list" where
  "js_sort ws = foldr sort_insert ws []"

subsection \<open>\<^verbatim>\<open>parser.execute\<close>\<close>

definition notExecuted :: "command list \<Rightarrow> command list" where
  "notExecuted cmds = filter (\<lambda>c. \<not> executed c) cmds"

text \<open>
  \<^verbatim>\<open>notExecutedCommands.map(function (command) { return command.helper.weight(); })\<close>,
  which throws at the first command whose helper is \<^verbatim>\<open>undefined\<close>.
\<close>

fun weights :: "command list \<Rightarrow> int list option" where
  "weights [] = Some []"
| "weights (c # cs) =
     (case helper c of
        None \<Rightarrow> None
      | Some h \<Rightarrow> map_option (\<lambda>ws. weight h # ws) (weights cs))"

text \<open>\<^verbatim>\<open>.sort()[0]\<close>; \<open>None\<close> is the \<^verbatim>\<open>undefined\<close> that an empty array would give.\<close>

definition lowestWeight :: "int list \<Rightarrow> int option" where
  "lowestWeight ws = (case js_sort ws of [] \<Rightarrow> None | w # _ \<Rightarrow> Some w)"

definition has_weight :: "int option \<Rightarrow> command \<Rightarrow> bool" where
  "has_weight lw c = (case helper c of None \<Rightarrow> False | Some h \<Rightarrow> Some (weight h) = lw)"

text \<open>
  The \<^verbatim>\<open>forEach\<close> calls every selected helper with the same \<^verbatim>\<open>state.markdown\<close>: the
  callbacks that write it run later, when the promises are fulfilled. The result pairs
  each binding index with the value of the helper's promise.
\<close>

fun invoke_all :: "jsstring \<Rightarrow> command list \<Rightarrow> (nat \<times> jsstring) list option" where
  "invoke_all md [] = Some []"
| "invoke_all md (c # cs) =
     (case helper c of
        None \<Rightarrow> None
      | Some h \<Rightarrow>
          (case invoke h md (parameters c) of
             None \<Rightarrow> None
           | Some v \<Rightarrow> map_option (\<lambda>rs. (bindingIndex c, v) # rs) (invoke_all md cs)))"

text \<open>One \<^verbatim>\<open>promise.then\<close> callback, and the callbacks in the order in which they run.\<close>

definition substitute :: "nat \<times> jsstring \<Rightarrow> jsstring \<Rightarrow> jsstring" where
  "substitute r md = js_replace (placeholder (fst r)) (snd r) md"

definition settle :: "(nat \<times> jsstring) list \<Rightarrow> jsstring \<Rightarrow> jsstring" where
  "settle rs md = fold substitute rs md"

text \<open>
  The promises of one round are fulfilled in an order the code does not control. The
  order is a parameter: \<open>sched\<close> rearranges the results, listed in the order of the
  \<^verbatim>\<open>forEach\<close>, into the order of completion. With helpers that return plain strings it is
  the identity. \<^verbatim>\<open>Promise.all\<close> is fulfilled once every callback has run, and every selected
  command is then marked; it is rejected as soon as one helper fails.
\<close>

type_synonym schedule = "(nat \<times> jsstring) list \<Rightarrow> (nat \<times> jsstring) list"

definition execute :: "schedule \<Rightarrow> state \<Rightarrow> error + state" where
  "execute sched st =
     (let pending = notExecuted (commands st) in
      if pending = [] then Inr st
      else
        (case weights pending of
           None \<Rightarrow> Inl TypeError
         | Some ws \<Rightarrow>
             (let lw = lowestWeight ws;
                  lowestWeightCommands = filter (has_weight lw) pending in
              case invoke_all (markdown st) lowestWeightCommands of
                None \<Rightarrow> Inl HelperError
              | Some rs \<Rightarrow>
                  Inr (st\<lparr>markdown := settle (sched rs) (markdown st),
                          commands := map (\<lambda>c. if \<not> executed c \<and> has_weight lw c
                                                then c\<lparr>executed := True\<rparr> else c)
                                        (commands st)\<rparr>))))"

subsection \<open>\<^verbatim>\<open>parser.play\<close>\<close>

text \<open>
  The recursion of \<^verbatim>\<open>play\<close> through the promise chain need not end, so the result is an
  option and \<open>None\<close> is a promise that is never settled. \<open>Some (Inl e)\<close> is a failed call:
  an exception of the first \<^verbatim>\<open>parse\<close> or \<^verbatim>\<open>execute\<close>, or a rejected promise.
\<close>

partial_function (option) play ::
  "schedule \<Rightarrow> registry \<Rightarrow> jsstring \<Rightarrow> command list \<Rightarrow> nat \<Rightarrow> (error + state) option" where
  "play sched H md cmds idx =
     (case parse H md cmds idx of
        Inl e \<Rightarrow> Some (Inl e)
      | Inr (st, idx') \<Rightarrow>
          (case execute sched st of
             Inl e \<Rightarrow> Some (Inl e)
           | Inr st' \<Rightarrow>
               if \<not> change st' \<and> notExecuted (commands st') = [] then Some (Inr st')
               else play sched H (markdown st') (commands st') idx'))"

text \<open>
  \<^verbatim>\<open>gitdown.get\<close>: a fresh parser (\<^verbatim>\<open>bindingIndex = 0\<close>, no commands), and the markdown of the
  final state.
\<close>

definition get :: "schedule \<Rightarrow> registry \<Rightarrow> jsstring \<Rightarrow> (error + jsstring) option" where
  "get sched H GFM = map_option (map_sum id markdown) (play sched H GFM [] 0)"

text \<open>The text has a match of the regular expression somewhere.\<close>

fun has_directive :: "jsstring \<Rightarrow> bool" where
  "has_directive [] = False"
| "has_directive (c # cs) = (case match_at (c # cs) of Some _ \<Rightarrow> True | None \<Rightarrow> has_directive cs)"

section \<open>The constructor\<close>

text \<open>
  \<^verbatim>\<open>Gitdown\<close> reads the identifier \<^verbatim>\<open>input\<close> when it is called without \<^verbatim>\<open>new\<close>. An identifier
  is looked up along the scope chain: the scope of the function (its parameter \<^verbatim>\<open>GFM\<close>,
  its variable \<^verbatim>\<open>gitdown\<close>, its own name and \<^verbatim>\<open>arguments\<close>), the scope of the module (its
  three variables and the names the module wrapper of Node.js provides), and the global
  object, which is a parameter. The \<^verbatim>\<open>var input\<close> of \<^verbatim>\<open>Gitdown.read\<close> is local to that
  function and not on the chain.
\<close>

datatype jsvalue = VString jsstring | VUndefined | VObject

fun resolve :: "(string \<Rightarrow> jsvalue option) list \<Rightarrow> string \<Rightarrow> jsvalue option" where
  "resolve [] x = None"
| "resolve (scope # scopes) x = (case scope x of Some v \<Rightarrow> Some v | None \<Rightarrow> resolve scopes x)"

definition function_scope :: "jsvalue \<Rightarrow> string \<Rightarrow> jsvalue option" where
  "function_scope gfm =
     [''GFM'' \<mapsto> gfm, ''gitdown'' \<mapsto> VUndefined, ''Gitdown'' \<mapsto> VObject, ''arguments'' \<mapsto> VObject]"

definition module_scope :: "string \<Rightarrow> jsvalue option" where
  "module_scope =
     [''Gitdown'' \<mapsto> VObject, ''Promise'' \<mapsto> VObject, ''fs'' \<mapsto> VObject,
      ''exports'' \<mapsto> VObject, ''require'' \<mapsto> VObject, ''module'' \<mapsto> VObject,
      ''__filename'' \<mapsto> VObject, ''__dirname'' \<mapsto> VObject]"

record gitdown =
  GFM :: jsvalue

text \<open>
  The second argument tells whether \<^verbatim>\<open>this instanceof Gitdown\<close> holds, that is, whether
  the function was called with \<^verbatim>\<open>new\<close>. \<^verbatim>\<open>new Gitdown(input)\<close> passes the guard and yields the
  instance whose methods close over its argument.
\<close>

definition Gitdown :: "(string \<Rightarrow> jsvalue option) \<Rightarrow> bool \<Rightarrow> jsvalue \<Rightarrow> error + gitdown" where
  "Gitdown globals this_instanceof_Gitdown gfm =
     (if \<not> this_instanceof_Gitdown then
        (case resolve [function_scope gfm, module_scope, globals] ''input'' of
           None \<Rightarrow> Inl ReferenceError
         | Some input \<Rightarrow> Inr \<lparr>GFM = input\<rparr>)
      else Inr \<lparr>GFM = gfm\<rparr>)"

text \<open>\<^verbatim>\<open>Gitdown.read\<close>; the first argument is \<^verbatim>\<open>fs.readFileSync\<close>, \<open>None\<close> when it throws.\<close>

definition Gitdown_read ::
  "(jsstring \<Rightarrow> jsstring option) \<Rightarrow> (string \<Rightarrow> jsvalue option) \<Rightarrow> jsstring \<Rightarrow> error + gitdown" where
  "Gitdown_read readFileSync globals fileName =
     (case readFileSync fileName of
        None \<Rightarrow> Inl FileError
      | Some input \<Rightarrow> Gitdown globals False (VString input))"

section \<open>Registries, helpers and documents of the examples\<close>

text \<open>
  A registry given by a table of names. A discriminator that is not a JSON string is
  looked up under its string conversion; the tables below have no such key.
\<close>

definition registry_of :: "(jsstring \<times> helper) list \<Rightarrow> registry" where
  "registry_of tbl nm = (case nm of Some (JStr s) \<Rightarrow> map_of tbl s | _ \<Rightarrow> None)"

definition constant_helper :: "int \<Rightarrow> jsstring \<Rightarrow> helper" where
  "constant_helper w out = \<lparr>weight = w, invoke = (\<lambda>md p. Some out)\<rparr>"

text \<open>The first \<^verbatim>\<open>parse\<close> and the first \<^verbatim>\<open>execute\<close> of \<^verbatim>\<open>play\<close>: the text and the \<^verbatim>\<open>executed\<close> flags after them.\<close>

definition first_round :: "schedule \<Rightarrow> registry \<Rightarrow> jsstring \<Rightarrow> error + jsstring \<times> bool list" where
  "first_round sched H md =
     (case parse H md [] 0 of
        Inl e \<Rightarrow> Inl e
      | Inr (st, idx) \<Rightarrow>
          (case execute sched st of
             Inl e \<Rightarrow> Inl e
           | Inr st' \<Rightarrow> Inr (markdown st', map executed (commands st'))))"

definition helpers_two_ten :: registry where
  "helpers_two_ten =
     registry_of [(str ''two'', constant_helper 2 (str ''TWO'')),
                  (str ''ten'', constant_helper 10 (str ''TEN''))]"

definition doc_two_ten :: jsstring where
  "doc_two_ten = str ''<<{\"gitdown\":\"two\"}>> <<{\"gitdown\":\"ten\"}>>''"

text \<open>The texts matched by the regular expression, in the order in which the scan meets them.\<close>

function matches :: "jsstring \<Rightarrow> jsstring list" where
  "matches [] = []"
| "matches (c # cs) =
     (case match_at (c # cs) of
        None \<Rightarrow> matches cs
      | Some (m, rest) \<Rightarrow> m # matches rest)"
  by pat_completeness auto
termination
  apply (relation "measure length")
    apply simp
   apply simp
  apply (clarsimp simp: match_at_def Let_def split: if_splits)
  apply (rule le_less_trans [OF diff_le_self])
  apply (rule le_less_trans [OF length_dropWhile_le])
  apply simp
  done

text \<open>The value of \<^verbatim>\<open>command.gitdown\<close> for a matched text that parses.\<close>

definition directive_name :: "jsstring \<Rightarrow> json option" where
  "directive_name m =
     (case JSON_parse (slice_2_2 m) of
        None \<Rightarrow> None
      | Some obj \<Rightarrow> get_property obj gitdown_key)"

definition helpers_a_c :: registry where
  "helpers_a_c =
     registry_of [(str ''a'', constant_helper 1 (str ''x'')),
                  (str ''c'', constant_helper 2 (str ''<<{\"gitdown\":\"a\"}>>''))]"

definition doc_a_c :: jsstring where
  "doc_a_c = str ''<<{\"gitdown\":\"a\"}>> <<{\"gitdown\":\"c\"}>>''"

definition helpers_a_lt :: registry where
  "helpers_a_lt =
     registry_of [(str ''a'', constant_helper 1 (str ''x'')),
                  (str ''lt'', constant_helper 2 (str ''<''))]"

definition doc_a_lt :: jsstring where
  "doc_a_lt = str ''<<{\"gitdown\":\"a\"}>><<{\"gitdown\":\"lt\"}>><{\"gitdown\":\"a\"}>>''"






section \<open>Texts made of placeholder tokens\<close>

text \<open>
  A text seen as a sequence of pieces: single code units and whole placeholder tokens.
  \<open>fill\<close> puts a string in the place of the first token with a given binding index.
  \<open>undigits\<close> reads a decimal numeral back.
\<close>

datatype piece = Plain nat | Token nat

fun render :: "piece list \<Rightarrow> jsstring" where
  "render [] = []"
| "render (Plain c # ts) = c # render ts"
| "render (Token k # ts) = placeholder k @ render ts"


definition undigits :: "jsstring \<Rightarrow> nat" where
  "undigits s = foldl (\<lambda>a c. 10 * a + (c - 48)) 0 s"

definition helpers_x_y :: registry where
  "helpers_x_y =
     registry_of [(str ''x'', constant_helper 1 (str ''X'')),
                  (str ''y'', constant_helper 1 (str ''Y''))]"

definition doc_x_y :: jsstring where
  "doc_x_y = str ''<<{\"gitdown\":\"x\"}>> <<{\"gitdown\":\"y\"}>>''"

definition state_x_y :: state where
  "state_x_y =
     \<lparr>markdown = placeholder 1 @ str '' '' @ placeholder 2,
      commands =
        [\<lparr>bindingIndex = 1, name = Some (JStr (str ''x'')), parameters = JObj [],
          helper = Some (constant_helper 1 (str ''X'')), executed = False\<rparr>,
         \<lparr>bindingIndex = 2, name = Some (JStr (str ''y'')), parameters = JObj [],
          helper = Some (constant_helper 1 (str ''Y'')), executed = False\<rparr>],
      change = True\<rparr>"





section \<open>The states of a run\<close>

text \<open>
  The states that one call of \<^verbatim>\<open>get\<close> on a document passes through, with the value of
  \<^verbatim>\<open>bindingIndex\<close>: at a call of \<^verbatim>\<open>play\<close> (of which only the text and the commands are
  read), after its \<^verbatim>\<open>parse\<close>, and after its \<^verbatim>\<open>execute\<close>, from where \<^verbatim>\<open>play\<close> is called again
  under the condition of the source.
\<close>

datatype phase = Calling | Parsed | Executed

inductive run_state :: "schedule \<Rightarrow> registry \<Rightarrow> jsstring \<Rightarrow> phase \<Rightarrow> state \<Rightarrow> nat \<Rightarrow> bool"
  for sched :: schedule and H :: registry and doc :: jsstring where
  start: "run_state sched H doc Calling \<lparr>markdown = doc, commands = [], change = False\<rparr> 0"
| parsed: "run_state sched H doc Calling st idx \<Longrightarrow>
    parse H (markdown st) (commands st) idx = Inr (st', idx') \<Longrightarrow>
    run_state sched H doc Parsed st' idx'"
| executed: "run_state sched H doc Parsed st idx \<Longrightarrow> execute sched st = Inr st' \<Longrightarrow>
    run_state sched H doc Executed st' idx"
| again: "run_state sched H doc Executed st idx \<Longrightarrow>
    change st \<or> notExecuted (commands st) \<noteq> [] \<Longrightarrow>
    run_state sched H doc Calling st idx"


definition doc_token_text :: jsstring where
  "doc_token_text = placeholder 7 @ str '' <<{\"gitdown\":\"x\"}>>''"

section \<open>Evaluation\<close>

lemma digits_small: "n < 10 \<Longrightarrow> digits n = [48 + n]"
  by (simp add: digits.simps)

lemma digits_large: "\<not> n < 10 \<Longrightarrow> digits n = digits (n div 10) @ [48 + n mod 10]"
  by (subst digits.simps) simp

lemma json_value_numeral:
  "json_value (numeral q) s =
     (case skip_ws s of
        [] \<Rightarrow> None
      | c # r \<Rightarrow>
          if c = 123 then
            (case expect 125 r of
               Some r' \<Rightarrow> Some (JObj [], r')
             | None \<Rightarrow> json_members (pred_numeral q) r [])
          else if c = 91 then
            (case expect 93 r of
               Some r' \<Rightarrow> Some (JArr [], r')
             | None \<Rightarrow> json_elements (pred_numeral q) r [])
          else if c = 34 then map_option (\<lambda>(t, r'). (JStr t, r')) (string_chars r)
          else if take 4 (c # r) = str ''true'' then Some (JBool True, drop 4 (c # r))
          else if take 5 (c # r) = str ''false'' then Some (JBool False, drop 5 (c # r))
          else if take 4 (c # r) = str ''null'' then Some (JNull, drop 4 (c # r))
          else map_option (\<lambda>(t, r'). (JNum t, r')) (number_lexeme (c # r)))"
  by (simp add: numeral_eq_Suc)

lemma json_elements_numeral:
  "json_elements (numeral q) s acc =
     (case json_value (pred_numeral q) s of
        None \<Rightarrow> None
      | Some (v, r) \<Rightarrow>
          (case expect 44 r of
             Some r' \<Rightarrow> json_elements (pred_numeral q) r' (acc @ [v])
           | None \<Rightarrow>
               (case expect 93 r of
                  Some r' \<Rightarrow> Some (JArr (acc @ [v]), r')
                | None \<Rightarrow> None)))"
  by (simp add: numeral_eq_Suc)

lemma json_members_numeral:
  "json_members (numeral q) s acc =
     (case expect 34 s of
        None \<Rightarrow> None
      | Some r \<Rightarrow>
          (case string_chars r of
             None \<Rightarrow> None
           | Some (k, r1) \<Rightarrow>
               (case expect 58 r1 of
                  None \<Rightarrow> None
                | Some r2 \<Rightarrow>
                    (case json_value (pred_numeral q) r2 of
                       None \<Rightarrow> None
                     | Some (v, r3) \<Rightarrow>
                         (case expect 44 r3 of
                            Some r4 \<Rightarrow> json_members (pred_numeral q) r4 (obj_put k v acc)
                          | None \<Rightarrow>
                              (case expect 125 r3 of
                                 Some r4 \<Rightarrow> Some (JObj (obj_put k v acc), r4)
                               | None \<Rightarrow> None))))))"
  by (simp add: numeral_eq_Suc)

lemmas eval_json =
  JSON_parse_def json_value_numeral json_elements_numeral json_members_numeral expect_def
  skip_ws_def is_ws_def is_digit_def number_lexeme_def number_int_def number_frac_def
  number_exp_def hex4_def hex_value_def escape_char_def

lemmas eval_scan =
  str_def match_at_def block_open_def block_close_def slice_2_2_def gitdown_key_def
  placeholder_def digits_small digits_large parse_def Let_def

lemmas eval_execute =
  execute_def notExecuted_def lowestWeight_def js_sort_def number_to_string_def has_weight_def
  settle_def substitute_def js_replace_def

lemmas eval_helpers = registry_of_def constant_helper_def

section \<open>The bound of the JSON parser\<close>

text \<open>
  A value that the parser finds with some bound is found with every bound from twice the
  number of characters it reads, so \<open>JSON_parse\<close> rejects a text only if the grammar does.
\<close>

lemma skip_ws_length: "length (skip_ws s) \<le> length s"
  unfolding skip_ws_def by (rule length_dropWhile_le)

lemma expect_length: "expect ch s = Some r \<Longrightarrow> length r < length s"
  using skip_ws_length [of s] by (auto simp: expect_def split: list.splits if_splits)

lemma string_chars_length: "string_chars s = Some (t, r) \<Longrightarrow> length r < length s"
proof (induction s arbitrary: t rule: string_chars.induct)
  case 1
  then show ?case by simp
next
  case (2 c)
  then show ?case by (simp split: if_splits)
next
  case (3 c e r')
  then show ?case
    by (fastforce split: if_splits option.splits)
qed

lemma number_int_length: "number_int s = Some (t, r) \<Longrightarrow> length r < length s"
proof -
  assume a: "number_int s = Some (t, r)"
  then have ne: "takeWhile is_digit s \<noteq> []"
    by (auto simp: number_int_def Let_def split: if_splits)
  then have s: "s \<noteq> []" by auto
  have "length (takeWhile is_digit s) + length (dropWhile is_digit s) = length s"
    by (metis length_append takeWhile_dropWhile_id)
  with ne have "length (dropWhile is_digit s) < length s"
    by (cases "takeWhile is_digit s") auto
  with a s show ?thesis
    by (auto simp: number_int_def Let_def split: if_splits)
qed

lemma number_frac_length: "number_frac s = Some (t, r) \<Longrightarrow> length r \<le> length s"
  using length_dropWhile_le [of is_digit "tl s"]
  by (auto simp: number_frac_def Let_def split: list.splits if_splits)

lemma number_exp_length: "number_exp s = Some (t, r) \<Longrightarrow> length r \<le> length s"
proof (cases s)
  case Nil
  then show "number_exp s = Some (t, r) \<Longrightarrow> length r \<le> length s"
    by (simp add: number_exp_def)
next
  case (Cons c r0)
  assume a: "number_exp s = Some (t, r)"
  show "length r \<le> length s"
  proof (cases "c = 101 \<or> c = 69")
    case False
    with a Cons show ?thesis by (simp add: number_exp_def)
  next
    case True
    with a Cons obtain k where "r = dropWhile is_digit (drop k r0)"
      by (auto simp: number_exp_def Let_def split: if_splits)
    moreover have "length (dropWhile is_digit (drop k r0)) \<le> length (drop k r0)"
      by (rule length_dropWhile_le)
    ultimately show ?thesis using Cons by simp
  qed
qed

lemma number_lexeme_length: "number_lexeme s = Some (t, r) \<Longrightarrow> length r < length s"
proof -
  assume "number_lexeme s = Some (t, r)"
  then obtain k i r1 f r2 e where "number_int (drop k s) = Some (i, r1)" "number_frac r1 = Some (f, r2)"
    "number_exp r2 = Some (e, r)"
    by (auto simp: number_lexeme_def Let_def split: option.splits)
  from number_int_length [OF this(1)] number_frac_length [OF this(2)] number_exp_length [OF this(3)]
  show ?thesis by simp
qed

lemma json_fuel:
  "(json_value n s = Some (v, r) \<longrightarrow>
      length r < length s \<and> (\<forall>m. 2 * (length s - length r) \<le> m \<longrightarrow> json_value m s = Some (v, r))) \<and>
   (json_elements n s acc = Some (v, r) \<longrightarrow>
      length r < length s \<and> (\<forall>m. 2 * (length s - length r) \<le> m \<longrightarrow> json_elements m s acc = Some (v, r))) \<and>
   (json_members n s ms = Some (v, r) \<longrightarrow>
      length r < length s \<and> (\<forall>m. 2 * (length s - length r) \<le> m \<longrightarrow> json_members m s ms = Some (v, r)))"
proof (induction n arbitrary: s v r acc ms)
  case 0
  show ?case by simp
next
  case (Suc n)
  note IHv = Suc.IH [THEN conjunct1, rule_format]
  note IHe = Suc.IH [THEN conjunct2, THEN conjunct1, rule_format]
  note IHm = Suc.IH [THEN conjunct2, THEN conjunct2, rule_format]
  have val: "length r < length s \<and> (\<forall>m. 2 * (length s - length r) \<le> m \<longrightarrow> json_value m s = Some (v, r))"
    if a: "json_value (Suc n) s = Some (v, r)"
  proof -
    from a obtain c r0 where sk: "skip_ws s = c # r0"
      by (auto split: list.splits)
    from sk skip_ws_length [of s] have l0: "length r0 < length s"
      by simp
    consider (obj0) r' where "c = 123" "expect 125 r0 = Some r'" "v = JObj []" "r = r'"
      | (obj) "c = 123" "expect 125 r0 = None" "json_members n r0 [] = Some (v, r)"
      | (arr0) r' where "c \<noteq> 123" "c = 91" "expect 93 r0 = Some r'" "v = JArr []" "r = r'"
      | (arr) "c \<noteq> 123" "c = 91" "expect 93 r0 = None" "json_elements n r0 [] = Some (v, r)"
      | (leaf) "c \<noteq> 123" "c \<noteq> 91" "length r < length (c # r0)"
          "\<forall>m. json_value (Suc m) s = Some (v, r)"
    proof -
      have leafs: "length r < length (c # r0) \<and> (\<forall>m. json_value (Suc m) s = Some (v, r))"
        if "c \<noteq> 123" "c \<noteq> 91"
        using a sk that
        by (auto simp: string_chars_length less_SucI number_lexeme_length
            split: if_splits dest!: string_chars_length number_lexeme_length)
      from a sk show ?thesis
        using leafs that by (cases "c = 123"; cases "c = 91"; cases "expect 125 r0"; cases "expect 93 r0") auto
    qed
    then show ?thesis
    proof cases
      case obj0
      from expect_length [OF obj0(2)] l0 obj0(4) have "length r < length s" by simp
      moreover have "json_value m s = Some (v, r)" if "2 * (length s - length r) \<le> m" for m
      proof -
        from that \<open>length r < length s\<close> obtain m' where "m = Suc m'"
          by (cases m) auto
        with sk obj0 show ?thesis by simp
      qed
      ultimately show ?thesis by blast
    next
      case obj
      from IHm [OF obj(3)] have l: "length r < length r0"
        and f: "\<And>m. 2 * (length r0 - length r) \<le> m \<Longrightarrow> json_members m r0 [] = Some (v, r)"
        by blast+
      from l l0 have "length r < length s" by simp
      moreover have "json_value m s = Some (v, r)" if "2 * (length s - length r) \<le> m" for m
      proof -
        from that \<open>length r < length s\<close> obtain m' where m: "m = Suc m'"
          by (cases m) auto
        with that l l0 have "2 * (length r0 - length r) \<le> m'"
          by simp
        from f [OF this] m sk obj show ?thesis by simp
      qed
      ultimately show ?thesis by blast
    next
      case arr0
      from expect_length [OF arr0(3)] l0 arr0(5) have "length r < length s" by simp
      moreover have "json_value m s = Some (v, r)" if "2 * (length s - length r) \<le> m" for m
      proof -
        from that \<open>length r < length s\<close> obtain m' where "m = Suc m'"
          by (cases m) auto
        with sk arr0 show ?thesis by simp
      qed
      ultimately show ?thesis by blast
    next
      case arr
      from IHe [OF arr(4)] have l: "length r < length r0"
        and f: "\<And>m. 2 * (length r0 - length r) \<le> m \<Longrightarrow> json_elements m r0 [] = Some (v, r)"
        by blast+
      from l l0 have "length r < length s" by simp
      moreover have "json_value m s = Some (v, r)" if "2 * (length s - length r) \<le> m" for m
      proof -
        from that \<open>length r < length s\<close> obtain m' where m: "m = Suc m'"
          by (cases m) auto
        with that l l0 have "2 * (length r0 - length r) \<le> m'"
          by simp
        from f [OF this] m sk arr show ?thesis by simp
      qed
      ultimately show ?thesis by blast
    next
      case leaf
      from leaf(3) sk skip_ws_length [of s] have "length r < length s"
        by simp
      moreover have "json_value m s = Some (v, r)" if "2 * (length s - length r) \<le> m" for m
      proof -
        from that \<open>length r < length s\<close> obtain m' where "m = Suc m'"
          by (cases m) auto
        with leaf(4) show ?thesis by simp
      qed
      ultimately show ?thesis by blast
    qed
  qed
  have els: "length r < length s \<and> (\<forall>m. 2 * (length s - length r) \<le> m \<longrightarrow> json_elements m s acc = Some (v, r))"
    if a: "json_elements (Suc n) s acc = Some (v, r)"
  proof -
    from a obtain v1 r1 where v1: "json_value n s = Some (v1, r1)"
      by (auto split: option.splits)
    from IHv [OF v1] have l1: "length r1 < length s"
      and f1: "\<And>m. 2 * (length s - length r1) \<le> m \<Longrightarrow> json_value m s = Some (v1, r1)"
      by blast+
    show ?thesis
    proof (cases "expect 44 r1")
      case (Some r')
      with a v1 have rec: "json_elements n r' (acc @ [v1]) = Some (v, r)"
        by simp
      from IHe [OF rec] have l2: "length r < length r'"
        and f2: "\<And>m. 2 * (length r' - length r) \<le> m \<Longrightarrow> json_elements m r' (acc @ [v1]) = Some (v, r)"
        by blast+
      from expect_length [OF Some] have l3: "length r' < length r1" .
      from l1 l2 l3 have "length r < length s" by simp
      moreover have "json_elements m s acc = Some (v, r)" if "2 * (length s - length r) \<le> m" for m
      proof -
        from that \<open>length r < length s\<close> obtain m' where m: "m = Suc m'"
          by (cases m) auto
        with that l1 l2 l3 have "2 * (length s - length r1) \<le> m'" "2 * (length r' - length r) \<le> m'"
          by simp_all
        from f1 [OF this(1)] f2 [OF this(2)] m Some show ?thesis by simp
      qed
      ultimately show ?thesis by blast
    next
      case None
      with a v1 have e: "expect 93 r1 = Some r" and v: "v = JArr (acc @ [v1])"
        by (auto split: option.splits)
      from expect_length [OF e] l1 have "length r < length s" by simp
      moreover have "json_elements m s acc = Some (v, r)" if "2 * (length s - length r) \<le> m" for m
      proof -
        from that \<open>length r < length s\<close> obtain m' where m: "m = Suc m'"
          by (cases m) auto
        with that l1 expect_length [OF e] have "2 * (length s - length r1) \<le> m'"
          by simp
        from f1 [OF this] m None e v show ?thesis by simp
      qed
      ultimately show ?thesis by blast
    qed
  qed
  have mem: "length r < length s \<and> (\<forall>m. 2 * (length s - length r) \<le> m \<longrightarrow> json_members m s ms = Some (v, r))"
    if a: "json_members (Suc n) s ms = Some (v, r)"
  proof -
    from a obtain q k r1 r2 v1 r3 where
      st: "expect 34 s = Some q" "string_chars q = Some (k, r1)" "expect 58 r1 = Some r2"
        "json_value n r2 = Some (v1, r3)"
      by (auto split: option.splits)
    from expect_length [OF st(1)] string_chars_length [OF st(2)] expect_length [OF st(3)]
    have l0: "length r2 < length s" by simp
    from IHv [OF st(4)] have l1: "length r3 < length r2"
      and f1: "\<And>m. 2 * (length r2 - length r3) \<le> m \<Longrightarrow> json_value m r2 = Some (v1, r3)"
      by blast+
    show ?thesis
    proof (cases "expect 44 r3")
      case (Some r4)
      with a st have rec: "json_members n r4 (obj_put k v1 ms) = Some (v, r)"
        by simp
      from IHm [OF rec] have l2: "length r < length r4"
        and f2: "\<And>m. 2 * (length r4 - length r) \<le> m \<Longrightarrow> json_members m r4 (obj_put k v1 ms) = Some (v, r)"
        by blast+
      from expect_length [OF Some] have l3: "length r4 < length r3" .
      from l0 l1 l2 l3 have "length r < length s" by simp
      moreover have "json_members m s ms = Some (v, r)" if "2 * (length s - length r) \<le> m" for m
      proof -
        from that \<open>length r < length s\<close> obtain m' where m: "m = Suc m'"
          by (cases m) auto
        with that l0 l1 l2 l3 have "2 * (length r2 - length r3) \<le> m'" "2 * (length r4 - length r) \<le> m'"
          by simp_all
        from f1 [OF this(1)] f2 [OF this(2)] m Some st show ?thesis by simp
      qed
      ultimately show ?thesis by blast
    next
      case None
      with a st have e: "expect 125 r3 = Some r" and v: "v = JObj (obj_put k v1 ms)"
        by (auto split: option.splits)
      from expect_length [OF e] l0 l1 have "length r < length s" by simp
      moreover have "json_members m s ms = Some (v, r)" if "2 * (length s - length r) \<le> m" for m
      proof -
        from that \<open>length r < length s\<close> obtain m' where m: "m = Suc m'"
          by (cases m) auto
        with that l0 l1 expect_length [OF e] have "2 * (length r2 - length r3) \<le> m'"
          by simp
        from f1 [OF this] m None e v st show ?thesis by simp
      qed
      ultimately show ?thesis by blast
    qed
  qed
  from val els mem show ?case by blast
qed

lemma JSON_parse_fuel:
  assumes "json_value n s = Some (v, r)" and "skip_ws r = []"
  shows "JSON_parse s = Some v"
proof -
  from json_fuel [of n s v r, THEN conjunct1, rule_format, OF assms(1)]
  have "\<forall>m. 2 * (length s - length r) \<le> m \<longrightarrow> json_value m s = Some (v, r)"
    by blast
  moreover have "2 * (length s - length r) \<le> 2 * length s + 2"
    by simp
  ultimately have "json_value (2 * length s + 2) s = Some (v, r)"
    by blast
  with assms(2) show ?thesis
    unfolding JSON_parse_def by (simp del: json_value.simps)
qed


section \<open>One iteration of \<^verbatim>\<open>play\<close>\<close>

lemma play_done:
  "parse H md cmds idx = Inr (st, idx') \<Longrightarrow> execute sched st = Inr st' \<Longrightarrow>
   \<not> change st' \<Longrightarrow> notExecuted (commands st') = [] \<Longrightarrow>
   play sched H md cmds idx = Some (Inr st')"
  by (subst play.simps) simp

lemma play_again:
  "parse H md cmds idx = Inr (st, idx') \<Longrightarrow> execute sched st = Inr st' \<Longrightarrow>
   change st' \<or> notExecuted (commands st') \<noteq> [] \<Longrightarrow>
   play sched H md cmds idx = play sched H (markdown st') (commands st') idx'"
  by (subst play.simps) auto



lemma execute_idle: "notExecuted (commands st) = [] \<Longrightarrow> execute sched st = Inr st"
  by (simp add: execute_def)

section \<open>A text without directives\<close>

lemma scan_no_directive: "\<not> has_directive t \<Longrightarrow> scan H t cmds idx = Inr (t, cmds, idx)"
  by (induction t) (auto split: option.splits)

lemma parse_no_directive:
  "\<not> has_directive t \<Longrightarrow>
   parse H t cmds idx = Inr (\<lparr>markdown = t, commands = cmds, change = False\<rparr>, idx)"
  by (simp add: parse_def scan_no_directive)

text \<open>
  C4. A text in which the regular expression of the scanner has no match is returned
  unchanged by \<^verbatim>\<open>get\<close>: the scan leaves it as it is and records no command, the round has
  nothing to execute, and the loop stops at once.
\<close>

theorem get_directive_free:
  "\<not> has_directive text \<Longrightarrow> get sched H text = Some (Inr text)"
  unfolding get_def
  by (subst play_done [OF parse_no_directive execute_idle]) (simp_all add: notExecuted_def)

theorem get_directive_free_witness:
  "\<not> has_directive (str ''# Title'') \<and>
   get id (\<lambda>nm. None) (str ''# Title'') = Some (Inr (str ''# Title''))"
proof -
  have h: "\<not> has_directive (str ''# Title'')"
    by (simp add: str_def match_at_def block_open_def)
  show ?thesis
    using h get_directive_free [OF h] by simp
qed

section \<open>The guard of the constructor\<close>

text \<open>
  C10. Called without \<^verbatim>\<open>new\<close>, \<^verbatim>\<open>Gitdown\<close> reads \<^verbatim>\<open>input\<close>, which neither the function nor the
  module declares. Unless the global object happens to have a property of that name, the
  call throws a ReferenceError whatever its argument is, and so does \<^verbatim>\<open>Gitdown.read\<close> for
  every file it can read.
\<close>

theorem Gitdown_without_new:
  assumes "globals ''input'' = None"
  shows "Gitdown globals False gfm = Inl ReferenceError \<and>
         Gitdown_read readFileSync globals fileName =
           (case readFileSync fileName of None \<Rightarrow> Inl FileError | Some content \<Rightarrow> Inl ReferenceError)"
  using assms
  by (simp add: Gitdown_def Gitdown_read_def function_scope_def module_scope_def split: option.splits)

theorem Gitdown_without_new_witness:
  "(\<lambda>x. None :: jsvalue option) ''input'' = None \<and>
   Gitdown (\<lambda>x. None) False (VString (str ''# Title'')) = Inl ReferenceError \<and>
   Gitdown_read (\<lambda>f. Some (str ''# Title'')) (\<lambda>x. None) (str ''README.md'') = Inl ReferenceError"
  using Gitdown_without_new [of "\<lambda>x. None" "VString (str ''# Title'')" "\<lambda>f. Some (str ''# Title'')" "str ''README.md''"]
  by simp

section \<open>The round and the order of the weights\<close>

text \<open>
  C1. With a helper of weight 2 and a helper of weight 10, the first round executes the
  command of weight 10 and leaves the command of weight 2 for a later round:
  \<^verbatim>\<open>sort()\<close> without a comparator orders the weights as strings, and \<^verbatim>\<open>"10"\<close> comes before
  \<^verbatim>\<open>"2"\<close>.
\<close>

theorem first_round_two_ten:
  "first_round id helpers_two_ten doc_two_ten = Inr (placeholder 1 @ str '' TEN'', [False, True]) \<and>
   js_sort [2, 10] = [10, 2]"
  by (simp add: first_round_def helpers_two_ten_def doc_two_ten_def
      eval_helpers eval_scan eval_json eval_execute)

section \<open>The substitution of a helper's result\<close>









section \<open>The commands of a scan\<close>



lemma scan_commands:
  "scan H t cmds idx = Inr (md', cmds', idx') \<Longrightarrow>
   \<exists>new. cmds' = cmds @ new \<and> idx' = idx + length new \<and>
         map bindingIndex new = [Suc idx..<Suc idx'] \<and>
         (\<forall>c\<in>set new. \<not> executed c) \<and>
         map helper new = map (\<lambda>m. H (directive_name m)) (matches t)"
proof (induction H t cmds idx arbitrary: md' cmds' idx' rule: scan.induct)
  case (1 H cmds idx)
  then show ?case by simp
next
  case (2 H c cs cmds idx)
  show ?case
  proof (cases "match_at (c # cs)")
    case None
    with "2.prems" obtain md'' where "scan H cs cmds idx = Inr (md'', cmds', idx')"
      by (auto split: sum.splits)
    from "2.IH"(1) [OF None this] None show ?thesis by simp
  next
    case (Some a)
    obtain m rest where a: "a = (m, rest)" by (cases a)
    with Some "2.prems" obtain obj where obj: "JSON_parse (slice_2_2 m) = Some obj"
      by (auto split: option.splits)
    let ?nm = "get_property obj gitdown_key"
    define cmd where "cmd = \<lparr>bindingIndex = idx + 1, name = ?nm,
        parameters = delete_property obj gitdown_key, helper = H ?nm, executed = False\<rparr>"
    from Some a obj "2.prems" obtain md'' where
      rec: "scan H rest (cmds @ [cmd]) (idx + 1) = Inr (md'', cmds', idx')"
      by (auto simp: Let_def cmd_def split: sum.splits)
    from "2.IH"(2) [OF Some a [symmetric] obj refl refl refl rec [unfolded cmd_def]]
    obtain new where new: "cmds' = (cmds @ [cmd]) @ new" "idx' = idx + 1 + length new"
      "map bindingIndex new = [Suc (idx + 1)..<Suc idx']" "\<forall>c\<in>set new. \<not> executed c"
      "map helper new = map (\<lambda>m. H (directive_name m)) (matches rest)"
      by (auto simp: cmd_def)
    have "Suc idx < Suc idx'"
      using new(2) by simp
    then have "[Suc idx..<Suc idx'] = Suc idx # [Suc (Suc idx)..<Suc idx']"
      by (rule upt_conv_Cons)
    then have "map bindingIndex (cmd # new) = [Suc idx..<Suc idx']"
      using new(3) by (simp add: cmd_def)
    moreover have "map helper (cmd # new) = map (\<lambda>m. H (directive_name m)) (matches (c # cs))"
      using new(5) Some a obj by (simp add: cmd_def directive_name_def)
    ultimately show ?thesis
      using new by (intro exI [of _ "cmd # new"]) (simp add: cmd_def)
  qed
qed




lemma match_at_Some:
  assumes "match_at s = Some (m, rest)"
  shows "\<exists>y. m = block_open @ y @ block_close \<and> s = m @ rest \<and> y \<noteq> [] \<and> 125 \<notin> set y"
proof -
  let ?r = "drop 12 s"
  let ?y = "takeWhile (\<lambda>c. c \<noteq> 125) ?r"
  let ?r' = "dropWhile (\<lambda>c. c \<noteq> 125) ?r"
  from assms have op: "take 12 s = block_open" and y: "?y \<noteq> []" and cl: "take 3 ?r' = block_close"
    and m: "m = block_open @ ?y @ block_close" and rest: "rest = drop 3 ?r'"
    by (auto simp: match_at_def Let_def split: if_splits)
  have "s = take 12 s @ ?r" by simp
  also have "?r = ?y @ ?r'" by simp
  also have "?r' = take 3 ?r' @ drop 3 ?r'" by simp
  finally have "s = m @ rest"
    using op cl m rest by simp
  moreover have "125 \<notin> set ?y"
    by (auto dest: set_takeWhileD)
  ultimately show ?thesis
    using m y by blast
qed









section \<open>A discriminator that names no helper\<close>






section \<open>Malformed directives\<close>






section \<open>The end of the loop\<close>

text \<open>
  C3. \<^verbatim>\<open>get\<close> ends with a text that still contains a directive block, for two documents.
  In the first, a helper of weight 1 returns plain text and a helper of weight 2 returns a
  directive for the first. In the second, no helper returns a directive block at all: the
  helper of weight 2 returns \<^verbatim>\<open><\<close>, which completes a block with the text that follows its
  placeholder. In both, the scan of the second iteration finds nothing new, its round
  executes the helper of weight 2, and the test \<^verbatim>\<open>!state.change && !notExecutedCommands.length\<close>
  stops the loop on the \<^verbatim>\<open>change\<close> of the scan that ran before that round.
\<close>

theorem get_a_c:
  "get id helpers_a_c doc_a_c = Some (Inr (str ''x <<{\"gitdown\":\"a\"}>>'')) \<and>
   has_directive (str ''x <<{\"gitdown\":\"a\"}>>'') \<and>
   \<not> has_directive (str ''x'') \<and> \<not> has_directive (str ''<'') \<and>
   get id helpers_a_lt doc_a_lt = Some (Inr (str ''x<<{\"gitdown\":\"a\"}>>'')) \<and>
   has_directive (str ''x<<{\"gitdown\":\"a\"}>>'')"
  by (simp add: get_def play.simps helpers_a_c_def doc_a_c_def helpers_a_lt_def doc_a_lt_def
      eval_helpers eval_scan eval_json eval_execute)


section \<open>A closing brace inside the payload\<close>














section \<open>Placeholder tokens in a text\<close>

lemma undigits_digits: "undigits (digits n) = n"
proof (induction n rule: digits.induct)
  case (1 n)
  show ?case
  proof (cases "n < 10")
    case True
    then show ?thesis by (simp add: digits_small undigits_def)
  next
    case False
    with 1 have "undigits (digits (n div 10)) = n div 10" by simp
    with False show ?thesis
      by (simp add: digits_large undigits_def)
  qed
qed

lemma digits_inj: "digits m = digits n \<Longrightarrow> m = n"
  by (metis undigits_digits)

lemma digits_not_Nil: "digits n \<noteq> []"
  by (subst digits.simps) simp

lemma digits_range: "c \<in> set (digits n) \<Longrightarrow> 48 \<le> c \<and> c \<le> 57"
proof (induction n rule: digits.induct)
  case (1 n)
  show ?case
  proof (cases "n < 10")
    case True
    with "1.prems" show ?thesis by (simp add: digits_small)
  next
    case False
    with "1.prems" have "c \<in> set (digits (n div 10)) \<or> c = 48 + n mod 10"
      by (auto simp: digits_large)
    then show ?thesis
    proof
      assume "c \<in> set (digits (n div 10))"
      with 1 False show ?thesis by simp
    next
      assume "c = 48 + n mod 10"
      moreover have "n mod 10 < 10" by simp
      ultimately show ?thesis by linarith
    qed
  qed
qed

lemma placeholder_Cons: "placeholder n = 8834 # 8834 # digits n @ [8835, 8835]"
  by (simp add: placeholder_def)

lemma placeholder_tail: "8834 \<notin> set (digits n @ [8835, 8835])"
  using digits_range [of 8834 n] by auto

lemma placeholder_no_lt: "60 \<notin> set (placeholder n)"
  using digits_range [of 60 n] by (auto simp: placeholder_def)

lemma placeholder_no_gt: "62 \<notin> set (placeholder n)"
  using digits_range [of 62 n] by (auto simp: placeholder_def)

lemma length_placeholder: "length (placeholder n) = 4 + length (digits n)"
  by (simp add: placeholder_def)

lemma render_append: "render (a @ b) = render a @ render b"
  by (induction a rule: render.induct) simp_all

lemma render_map_Plain: "render (map Plain v) = v"
  by (induction v) simp_all

lemma index_of_skip_char:
  "c \<noteq> 8834 \<Longrightarrow> index_of (placeholder i) (c # s) = map_option Suc (index_of (placeholder i) s)"
  by (simp add: placeholder_Cons)

lemma index_of_skip_plain:
  "8834 \<notin> set p \<Longrightarrow>
   index_of (placeholder i) (p @ s) = map_option (\<lambda>n. length p + n) (index_of (placeholder i) s)"
proof (induction p)
  case Nil
  then show ?case by (simp add: option.map_ident)
next
  case (Cons c p)
  then show ?case
    by (simp add: index_of_skip_char option.map_comp comp_def del: index_of.simps)
qed

lemma index_of_here: "index_of (placeholder i) (placeholder i @ s) = Some 0"
  by (simp add: placeholder_Cons)

lemma same_up_to:
  "x \<notin> set xs \<Longrightarrow> x \<notin> set ys \<Longrightarrow> xs @ x # r = ys @ x # r' \<Longrightarrow> xs = ys"
proof (induction xs arbitrary: ys)
  case Nil
  then show ?case by (cases ys) auto
next
  case (Cons a xs)
  then show ?case by (cases ys) auto
qed

lemma digits_prefix:
  assumes "take (length (digits i @ [8835, 8835])) (digits k @ [8835, 8835] @ s) = digits i @ [8835, 8835]"
  shows "i = k"
proof -
  define t where "t = digits k @ [8835, 8835] @ s"
  define r where "r = drop (length (digits i @ [8835, 8835])) t"
  have "t = take (length (digits i @ [8835, 8835])) t @ r"
    unfolding r_def by (rule append_take_drop_id [symmetric])
  with assms have "t = (digits i @ [8835, 8835]) @ r"
    unfolding t_def by simp
  then have eq: "digits k @ 8835 # (8835 # s) = digits i @ 8835 # (8835 # r)"
    unfolding t_def by simp
  have nk: "8835 \<notin> set (digits k)"
    using digits_range [of 8835 k] by auto
  have ni: "8835 \<notin> set (digits i)"
    using digits_range [of 8835 i] by auto
  have "digits k = digits i"
    by (rule same_up_to [OF nk ni eq])
  then show ?thesis
    by (simp add: digits_inj)
qed

lemma index_of_skip_token:
  assumes "k \<noteq> i"
  shows "index_of (placeholder i) (placeholder k @ s) =
         map_option (\<lambda>n. length (placeholder k) + n) (index_of (placeholder i) s)"
proof -
  let ?tail = "digits k @ [8835, 8835]"
  have first: "take (length (placeholder i)) (placeholder k @ s) \<noteq> placeholder i"
  proof
    assume "take (length (placeholder i)) (placeholder k @ s) = placeholder i"
    then have "take (length (digits i @ [8835, 8835])) (digits k @ [8835, 8835] @ s) = digits i @ [8835, 8835]"
      by (simp add: placeholder_Cons)
    from digits_prefix [OF this] assms show False by simp
  qed
  obtain d ds where d: "digits k = d # ds"
    using digits_not_Nil [of k] by (cases "digits k") auto
  have "d \<noteq> 8834"
    using digits_range [of d k] d by auto
  then have second: "take (length (placeholder i)) (8834 # ?tail @ s) \<noteq> placeholder i"
    by (simp add: placeholder_Cons d)
  have "index_of (placeholder i) (placeholder k @ s) =
      map_option Suc (index_of (placeholder i) (8834 # ?tail @ s))"
    using first by (simp add: placeholder_Cons)
  also have "index_of (placeholder i) (8834 # ?tail @ s) =
      map_option Suc (index_of (placeholder i) (?tail @ s))"
    using second by simp
  also have "index_of (placeholder i) (?tail @ s) =
      map_option (\<lambda>n. length ?tail + n) (index_of (placeholder i) s)"
    by (rule index_of_skip_plain [OF placeholder_tail])
  finally show ?thesis
    by (simp add: option.map_comp comp_def placeholder_Cons)
qed

lemma index_of_render:
  "Plain 8834 \<notin> set ts \<Longrightarrow>
   index_of (placeholder i) (render ts) =
     (if Token i \<in> set ts then Some (length (render (takeWhile (\<lambda>t. t \<noteq> Token i) ts))) else None)"
proof (induction ts rule: render.induct)
  case 1
  then show ?case by (simp add: placeholder_Cons)
next
  case (2 c ts)
  then show ?case
    by (simp add: index_of_skip_char del: index_of.simps)
next
  case (3 k ts)
  show ?case
  proof (cases "k = i")
    case True
    then show ?thesis
      by (simp add: index_of_here del: index_of.simps)
  next
    case False
    with 3 show ?thesis
      by (simp add: index_of_skip_token del: index_of.simps)
  qed
qed


lemma dropWhile_first:
  "x \<in> set xs \<Longrightarrow> dropWhile (\<lambda>t. t \<noteq> x) xs = x # tl (dropWhile (\<lambda>t. t \<noteq> x) xs)"
  by (induction xs) auto

lemma split_first:
  "x \<in> set xs \<Longrightarrow> xs = takeWhile (\<lambda>t. t \<noteq> x) xs @ x # tl (dropWhile (\<lambda>t. t \<noteq> x) xs)"
  using dropWhile_first [of x xs] takeWhile_dropWhile_id [of "\<lambda>t. t \<noteq> x" xs] by simp

lemma js_replace_render:
  assumes "Plain 8834 \<notin> set ts"
  shows "js_replace (placeholder i) v (render ts) =
     (if Token i \<in> set ts then
        render (takeWhile (\<lambda>t. t \<noteq> Token i) ts) @
        get_substitution (placeholder i) (render (takeWhile (\<lambda>t. t \<noteq> Token i) ts))
          (render (tl (dropWhile (\<lambda>t. t \<noteq> Token i) ts))) v @
        render (tl (dropWhile (\<lambda>t. t \<noteq> Token i) ts))
      else render ts)"
proof (cases "Token i \<in> set ts")
  case False
  with assms show ?thesis
    by (simp add: js_replace_def index_of_render)
next
  case True
  let ?pre = "takeWhile (\<lambda>t. t \<noteq> Token i) ts"
  let ?post = "tl (dropWhile (\<lambda>t. t \<noteq> Token i) ts)"
  have "render ts = render (?pre @ Token i # ?post)"
    using split_first [OF True] by simp
  then have r: "render ts = render ?pre @ placeholder i @ render ?post"
    by (simp add: render_append)
  have "take (length (render ?pre)) (render ts) = render ?pre"
    unfolding r by simp
  moreover have "drop (length (render ?pre) + length (placeholder i)) (render ts) = render ?post"
    unfolding r by simp
  ultimately show ?thesis
    using assms True by (simp add: js_replace_def index_of_render Let_def)
qed









section \<open>The occurrence that is replaced\<close>





section \<open>The order of completion within a round\<close>

lemma invoke_all_results:
  "invoke_all md cs = Some rs \<Longrightarrow>
   map fst rs = map bindingIndex cs \<and>
   (\<forall>r\<in>set rs. \<exists>c\<in>set cs. \<exists>h. helper c = Some h \<and> invoke h md (parameters c) = Some (snd r))"
proof (induction cs arbitrary: rs)
  case Nil
  then show ?case by simp
next
  case (Cons c cs)
  from Cons.prems obtain h v rs' where
    c: "helper c = Some h" "invoke h md (parameters c) = Some v" "invoke_all md cs = Some rs'"
      "rs = (bindingIndex c, v) # rs'"
    by (auto split: option.splits)
  from Cons.IH [OF c(3)] c show ?case
    by auto
qed





section \<open>Tokens through a scan and through a round\<close>

lemma match_at_lt: "c \<noteq> 60 \<Longrightarrow> match_at (c # s) = None"
  by (auto simp: match_at_def block_open_def str_def)

lemma scan_skip:
  "60 \<notin> set p \<Longrightarrow>
   scan H (p @ s) cmds idx =
     (case scan H s cmds idx of Inl e \<Rightarrow> Inl e | Inr (md, r) \<Rightarrow> Inr (p @ md, r))"
proof (induction p)
  case Nil
  then show ?case by (simp split: sum.splits)
next
  case (Cons c p)
  then show ?case
    by (simp add: match_at_lt split: sum.splits)
qed

lemma split_after:
  "p @ s = u @ c # rest \<Longrightarrow> c \<notin> set p \<Longrightarrow> \<exists>u'. u = p @ u' \<and> s = u' @ c # rest"
proof (induction p arbitrary: u)
  case Nil
  then show ?case by simp
next
  case (Cons a p)
  then show ?case
    by (cases u) auto
qed

lemma suffix_after_gt:
  "render ts = u @ 62 # rest \<Longrightarrow>
   \<exists>ts'. rest = render ts' \<and> set ts' \<subseteq> set ts \<and> length ts' < length ts"
proof (induction ts arbitrary: u rule: render.induct)
  case 1
  then show ?case by simp
next
  case (2 c ts)
  show ?case
  proof (cases u)
    case Nil
    with "2.prems" have "rest = render ts" by simp
    then show ?thesis by auto
  next
    case (Cons a u')
    with "2.prems" have "render ts = u' @ 62 # rest" by simp
    from "2.IH" [OF this] show ?thesis by auto
  qed
next
  case (3 k ts)
  from "3.prems" have "placeholder k @ render ts = u @ 62 # rest"
    by simp
  from split_after [OF this placeholder_no_gt] obtain u' where "render ts = u' @ 62 # rest"
    by blast
  from "3.IH" [OF this] show ?case by auto
qed

lemma match_at_rest:
  assumes "match_at s = Some (m, rest)"
  shows "\<exists>u. s = u @ 62 # rest"
proof -
  from match_at_Some [OF assms] obtain y where "s = (block_open @ y @ block_close) @ rest"
    by blast
  then have "s = (block_open @ y @ [125, 62]) @ 62 # rest"
    by (simp add: block_close_def str_def)
  then show ?thesis by blast
qed

lemma scan_index_mono: "scan H t cmds idx = Inr (md', cmds', idx') \<Longrightarrow> idx \<le> idx'"
  using scan_commands [of H t cmds idx md' cmds' idx'] by auto

lemma scan_tokens:
  "Plain 8834 \<notin> set ts \<Longrightarrow> scan H (render ts) cmds idx = Inr (md', cmds', idx') \<Longrightarrow>
   \<exists>ts'. md' = render ts' \<and> Plain 8834 \<notin> set ts' \<and>
     (\<forall>k. Token k \<in> set ts' \<longrightarrow> Token k \<in> set ts \<or> (idx < k \<and> k \<le> idx'))"
proof (induction "length ts" arbitrary: ts cmds idx md' cmds' idx' rule: less_induct)
  case less
  show ?case
  proof (cases ts rule: render.cases)
    case 1
    with less.prems show ?thesis
      by (intro exI [of _ "[]"]) simp
  next
    case (2 c ts1)
    with less.prems have c: "c \<noteq> 8834" and ts1: "Plain 8834 \<notin> set ts1"
      by auto
    show ?thesis
    proof (cases "match_at (c # render ts1)")
      case None
      with less.prems(2) 2 obtain md1 where
        s1: "scan H (render ts1) cmds idx = Inr (md1, cmds', idx')" and md': "md' = c # md1"
        by (auto split: sum.splits)
      from less.hyps [OF _ ts1 s1] 2 obtain ts1' where
        "md1 = render ts1'" "Plain 8834 \<notin> set ts1'"
        "\<forall>k. Token k \<in> set ts1' \<longrightarrow> Token k \<in> set ts1 \<or> (idx < k \<and> k \<le> idx')"
        by auto
      with md' c 2 show ?thesis
        by (intro exI [of _ "Plain c # ts1'"]) auto
    next
      case (Some a)
      obtain m rest where a: "a = (m, rest)" by (cases a)
      from match_at_rest [OF Some [unfolded a]] 2 obtain u where "render ts = u @ 62 # rest"
        by auto
      from suffix_after_gt [OF this] obtain tsr where
        tsr: "rest = render tsr" "set tsr \<subseteq> set ts" "length tsr < length ts"
        by blast
      from Some a less.prems(2) 2 obtain obj where obj: "JSON_parse (slice_2_2 m) = Some obj"
        by (auto split: option.splits)
      let ?cmds1 = "cmds @ [\<lparr>bindingIndex = idx + 1, name = get_property obj gitdown_key,
          parameters = delete_property obj gitdown_key, helper = H (get_property obj gitdown_key),
          executed = False\<rparr>]"
      from Some a obj less.prems(2) 2 obtain md1 where
        s1: "scan H rest ?cmds1 (idx + 1) = Inr (md1, cmds', idx')"
        and md': "md' = placeholder (idx + 1) @ md1"
        by (auto simp: Let_def split: sum.splits)
      from tsr(2) less.prems(1) have "Plain 8834 \<notin> set tsr"
        by auto
      from less.hyps [OF tsr(3) this s1 [unfolded tsr(1)]] obtain tsr' where
        r: "md1 = render tsr'" "Plain 8834 \<notin> set tsr'"
        "\<forall>k. Token k \<in> set tsr' \<longrightarrow> Token k \<in> set tsr \<or> (idx + 1 < k \<and> k \<le> idx')"
        by auto
      from scan_index_mono [OF s1] have "idx + 1 \<le> idx'" .
      with r md' tsr(2) show ?thesis
        by (intro exI [of _ "Token (idx + 1) # tsr'"]) auto
    qed
  next
    case (3 k ts1)
    with less.prems have ts1: "Plain 8834 \<notin> set ts1"
      by auto
    from less.prems(2) 3 obtain md1 where
      s1: "scan H (render ts1) cmds idx = Inr (md1, cmds', idx')" and md': "md' = placeholder k @ md1"
      by (auto simp: scan_skip [OF placeholder_no_lt] split: sum.splits)
    from less.hyps [OF _ ts1 s1] 3 obtain ts1' where
      "md1 = render ts1'" "Plain 8834 \<notin> set ts1'"
      "\<forall>k. Token k \<in> set ts1' \<longrightarrow> Token k \<in> set ts1 \<or> (idx < k \<and> k \<le> idx')"
      by auto
    with md' 3 show ?thesis
      by (intro exI [of _ "Token k # ts1'"]) auto
  qed
qed


lemma get_substitution_pieces:
  assumes "Plain 8834 \<notin> set pre" and "Plain 8834 \<notin> set post"
  shows "8834 \<notin> set v \<Longrightarrow>
     \<exists>gs. get_substitution (placeholder i) (render pre) (render post) v = render gs \<and>
       Plain 8834 \<notin> set gs \<and>
       (\<forall>k. Token k \<in> set gs \<longrightarrow> k = i \<or> Token k \<in> set pre \<or> Token k \<in> set post)"
proof (induction "placeholder i" "render pre" "render post" v rule: get_substitution.induct)
  case 1
  show ?case by (intro exI [of _ "[]"]) simp
next
  case (2 c)
  then show ?case by (intro exI [of _ "[Plain c]"]) simp
next
  case (3 c d r)
  let ?G = "get_substitution (placeholder i) (render pre) (render post)"
  have tail: "\<exists>gs. ?G r = render gs \<and> Plain 8834 \<notin> set gs \<and>
      (\<forall>k. Token k \<in> set gs \<longrightarrow> k = i \<or> Token k \<in> set pre \<or> Token k \<in> set post)"
    if "c = 36" "d = 36 \<or> d = 38 \<or> d = 96 \<or> d = 39"
    using 3 that by auto
  have rest: "\<exists>gs. ?G (d # r) = render gs \<and> Plain 8834 \<notin> set gs \<and>
      (\<forall>k. Token k \<in> set gs \<longrightarrow> k = i \<or> Token k \<in> set pre \<or> Token k \<in> set post)"
    if "c \<noteq> 36 \<or> (d \<noteq> 36 \<and> d \<noteq> 38 \<and> d \<noteq> 96 \<and> d \<noteq> 39)"
    using 3 that by auto
  from "3.prems" have c: "c \<noteq> 8834" by simp
  consider (dollar) "c = 36" "d = 36" | (matched) "c = 36" "d \<noteq> 36" "d = 38"
    | (before) "c = 36" "d \<noteq> 36" "d \<noteq> 38" "d = 96"
    | (after) "c = 36" "d \<noteq> 36" "d \<noteq> 38" "d \<noteq> 96" "d = 39"
    | (other) "c \<noteq> 36 \<or> (d \<noteq> 36 \<and> d \<noteq> 38 \<and> d \<noteq> 96 \<and> d \<noteq> 39)"
    by blast
  then show ?case
  proof cases
    case dollar
    with tail obtain gs where "?G r = render gs" "Plain 8834 \<notin> set gs"
      "\<forall>k. Token k \<in> set gs \<longrightarrow> k = i \<or> Token k \<in> set pre \<or> Token k \<in> set post"
      by blast
    with dollar show ?thesis
      by (intro exI [of _ "Plain 36 # gs"]) simp
  next
    case matched
    with tail obtain gs where "?G r = render gs" "Plain 8834 \<notin> set gs"
      "\<forall>k. Token k \<in> set gs \<longrightarrow> k = i \<or> Token k \<in> set pre \<or> Token k \<in> set post"
      by blast
    with matched show ?thesis
      by (intro exI [of _ "Token i # gs"]) simp
  next
    case before
    with tail obtain gs where "?G r = render gs" "Plain 8834 \<notin> set gs"
      "\<forall>k. Token k \<in> set gs \<longrightarrow> k = i \<or> Token k \<in> set pre \<or> Token k \<in> set post"
      by blast
    with before assms show ?thesis
      by (intro exI [of _ "pre @ gs"]) (auto simp: render_append)
  next
    case after
    with tail obtain gs where "?G r = render gs" "Plain 8834 \<notin> set gs"
      "\<forall>k. Token k \<in> set gs \<longrightarrow> k = i \<or> Token k \<in> set pre \<or> Token k \<in> set post"
      by blast
    with after assms show ?thesis
      by (intro exI [of _ "post @ gs"]) (auto simp: render_append)
  next
    case other
    with rest obtain gs where "?G (d # r) = render gs" "Plain 8834 \<notin> set gs"
      "\<forall>k. Token k \<in> set gs \<longrightarrow> k = i \<or> Token k \<in> set pre \<or> Token k \<in> set post"
      by blast
    with other c show ?thesis
      by (intro exI [of _ "Plain c # gs"]) auto
  qed
qed

lemma substitute_tokens:
  assumes "Plain 8834 \<notin> set ts" and "8834 \<notin> set (snd r)"
  shows "\<exists>ts'. substitute r (render ts) = render ts' \<and> Plain 8834 \<notin> set ts' \<and>
           (\<forall>k. Token k \<in> set ts' \<longrightarrow> Token k \<in> set ts)"
proof (cases "Token (fst r) \<in> set ts")
  case False
  with assms show ?thesis
    by (intro exI [of _ ts]) (simp add: substitute_def js_replace_render)
next
  case True
  let ?pre = "takeWhile (\<lambda>t. t \<noteq> Token (fst r)) ts"
  let ?post = "tl (dropWhile (\<lambda>t. t \<noteq> Token (fst r)) ts)"
  have ts: "ts = ?pre @ Token (fst r) # ?post"
    by (rule split_first [OF True])
  then have sub: "set ?pre \<subseteq> set ts" "set ?post \<subseteq> set ts"
    by (metis Un_upper1 set_append, metis Un_upper2 set_append set_subset_Cons subset_trans)
  with assms(1) have pre: "Plain 8834 \<notin> set ?pre" and post: "Plain 8834 \<notin> set ?post"
    by auto
  from get_substitution_pieces [OF pre post assms(2), of "fst r"] obtain gs where
    gs: "get_substitution (placeholder (fst r)) (render ?pre) (render ?post) (snd r) = render gs"
    "Plain 8834 \<notin> set gs"
    "\<forall>k. Token k \<in> set gs \<longrightarrow> k = fst r \<or> Token k \<in> set ?pre \<or> Token k \<in> set ?post"
    by blast
  have "substitute r (render ts) = render (?pre @ gs @ ?post)"
    using assms(1) True gs(1) by (simp add: substitute_def js_replace_render render_append)
  moreover have "Plain 8834 \<notin> set (?pre @ gs @ ?post)"
    using pre post gs(2) by simp
  moreover have "\<forall>k. Token k \<in> set (?pre @ gs @ ?post) \<longrightarrow> Token k \<in> set ts"
    using gs(3) sub True by auto
  ultimately show ?thesis
    by blast
qed

lemma settle_tokens:
  "Plain 8834 \<notin> set ts \<Longrightarrow> \<forall>r\<in>set rs. 8834 \<notin> set (snd r) \<Longrightarrow>
   \<exists>ts'. settle rs (render ts) = render ts' \<and> Plain 8834 \<notin> set ts' \<and>
     (\<forall>k. Token k \<in> set ts' \<longrightarrow> Token k \<in> set ts)"
proof (induction rs arbitrary: ts)
  case Nil
  then show ?case
    by (intro exI [of _ ts]) (simp add: settle_def)
next
  case (Cons r rs)
  from substitute_tokens [OF Cons.prems(1), of r] Cons.prems(2) obtain ts1 where
    ts1: "substitute r (render ts) = render ts1" "Plain 8834 \<notin> set ts1"
    "\<forall>k. Token k \<in> set ts1 \<longrightarrow> Token k \<in> set ts"
    by auto
  from Cons.IH [OF ts1(2)] Cons.prems(2) obtain ts' where
    "settle rs (render ts1) = render ts'" "Plain 8834 \<notin> set ts'"
    "\<forall>k. Token k \<in> set ts' \<longrightarrow> Token k \<in> set ts1"
    by auto
  with ts1 show ?case
    by (intro exI [of _ ts']) (simp add: settle_def)
qed

lemma execute_commands:
  "execute sched st = Inr st' \<Longrightarrow>
   map bindingIndex (commands st') = map bindingIndex (commands st) \<and>
   map helper (commands st') = map helper (commands st)"
  by (auto simp: execute_def Let_def split: if_splits option.splits)

lemma execute_text:
  assumes "execute sched st = Inr st'"
  shows "markdown st' = markdown st \<or>
     (\<exists>sel rs. set sel \<subseteq> set (commands st) \<and> invoke_all (markdown st) sel = Some rs \<and>
        markdown st' = settle (sched rs) (markdown st))"
proof (cases "notExecuted (commands st) = []")
  case True
  with assms show ?thesis by (simp add: execute_def)
next
  case False
  with assms obtain ws rs where
    "invoke_all (markdown st) (filter (has_weight (lowestWeight ws)) (notExecuted (commands st))) = Some rs"
    "markdown st' = settle (sched rs) (markdown st)"
    by (auto simp: execute_def Let_def split: option.splits)
  moreover have "set (filter (has_weight (lowestWeight ws)) (notExecuted (commands st))) \<subseteq> set (commands st)"
    by (auto simp: notExecuted_def)
  ultimately show ?thesis by blast
qed

lemma one_record:
  "distinct (map f xs) \<Longrightarrow> k \<in> f ` set xs \<Longrightarrow> length (filter (\<lambda>c. f c = k) xs) = 1"
proof (induction xs)
  case Nil
  then show ?case by simp
next
  case (Cons x xs)
  show ?case
  proof (cases "f x = k")
    case True
    with Cons.prems have "k \<notin> f ` set xs"
      by simp
    then have "filter (\<lambda>c. f c = k) xs = []"
      by (auto simp: filter_empty_conv)
    with True show ?thesis by simp
  next
    case False
    with Cons show ?thesis by auto
  qed
qed


section \<open>Binding identifiers\<close>

lemma run_state_ids:
  "run_state sched H doc ph st idx \<Longrightarrow>
   map bindingIndex (commands st) = [1..<Suc idx] \<and> (\<forall>c\<in>set (commands st). \<exists>nm. helper c = H nm)"
proof (induction rule: run_state.induct)
  case start
  show ?case by simp
next
  case (parsed st idx st' idx')
  from parsed.hyps(2) obtain md' cmds' where
    scan: "scan H (markdown st) (commands st) idx = Inr (md', cmds', idx')" and st': "commands st' = cmds'"
    by (auto simp: parse_def split: sum.splits)
  from scan_commands [OF scan] obtain new where new: "cmds' = commands st @ new"
    "idx' = idx + length new" "map bindingIndex new = [Suc idx..<Suc idx']"
    "map helper new = map (\<lambda>m. H (directive_name m)) (matches (markdown st))"
    by blast
  have "[1..<Suc idx'] = [1..<Suc idx] @ [Suc idx..<Suc idx']"
    using new(2) upt_add_eq_append [of 1 "Suc idx" "length new"] by simp
  with parsed.IH new(1,3) st' have ids: "map bindingIndex (commands st') = [1..<Suc idx']"
    by simp
  have "\<exists>nm. helper c = H nm" if "c \<in> set new" for c
  proof -
    from that have "helper c \<in> set (map helper new)" by simp
    then show ?thesis unfolding new(4) by auto
  qed
  with parsed.IH new(1) st' ids show ?case
    by auto
next
  case (executed st idx st')
  from execute_commands [OF executed.hyps(2)] have
    b: "map bindingIndex (commands st') = map bindingIndex (commands st)" and
    h: "map helper (commands st') = map helper (commands st)"
    by blast+
  have "\<exists>nm. helper c = H nm" if "c \<in> set (commands st')" for c
  proof -
    from that have "helper c \<in> set (map helper (commands st'))" by simp
    with h obtain c' where "c' \<in> set (commands st)" "helper c = helper c'"
      by auto
    with executed.IH show ?thesis by auto
  qed
  with executed.IH b show ?case by simp
next
  case (again st idx)
  then show ?case by simp
qed

lemma run_state_tokens:
  assumes doc: "8834 \<notin> set doc"
    and out: "\<forall>nm h md p v. H nm = Some h \<longrightarrow> invoke h md p = Some v \<longrightarrow> 8834 \<notin> set v"
    and perm: "\<forall>rs. mset (sched rs) = mset rs"
  shows "run_state sched H doc ph st idx \<Longrightarrow>
     \<exists>ts. markdown st = render ts \<and> Plain 8834 \<notin> set ts \<and> (\<forall>k. Token k \<in> set ts \<longrightarrow> 1 \<le> k \<and> k \<le> idx)"
proof (induction rule: run_state.induct)
  case start
  from doc show ?case
    by (intro exI [of _ "map Plain doc"]) (auto simp: render_map_Plain)
next
  case (parsed st idx st' idx')
  from parsed.hyps(2) obtain md' cmds' where
    scan: "scan H (markdown st) (commands st) idx = Inr (md', cmds', idx')" and st': "markdown st' = md'"
    by (auto simp: parse_def split: sum.splits)
  from parsed.IH obtain ts where ts: "markdown st = render ts" "Plain 8834 \<notin> set ts"
    "\<forall>k. Token k \<in> set ts \<longrightarrow> 1 \<le> k \<and> k \<le> idx"
    by blast
  from scan_tokens [OF ts(2) scan [unfolded ts(1)]] obtain ts' where
    ts': "md' = render ts'" "Plain 8834 \<notin> set ts'"
    "\<forall>k. Token k \<in> set ts' \<longrightarrow> Token k \<in> set ts \<or> (idx < k \<and> k \<le> idx')"
    by blast
  from scan_index_mono [OF scan] have "idx \<le> idx'" .
  with ts(3) ts'(3) have "\<forall>k. Token k \<in> set ts' \<longrightarrow> 1 \<le> k \<and> k \<le> idx'"
    by fastforce
  with ts'(1,2) st' show ?case by blast
next
  case (executed st idx st')
  from executed.IH obtain ts where ts: "markdown st = render ts" "Plain 8834 \<notin> set ts"
    "\<forall>k. Token k \<in> set ts \<longrightarrow> 1 \<le> k \<and> k \<le> idx"
    by blast
  from execute_text [OF executed.hyps(2)] show ?case
  proof
    assume "markdown st' = markdown st"
    with ts show ?thesis by auto
  next
    assume "\<exists>sel rs. set sel \<subseteq> set (commands st) \<and> invoke_all (markdown st) sel = Some rs \<and>
        markdown st' = settle (sched rs) (markdown st)"
    then obtain sel rs where sel: "set sel \<subseteq> set (commands st)"
      and rs: "invoke_all (markdown st) sel = Some rs"
      and md: "markdown st' = settle (sched rs) (markdown st)"
      by blast
    have "8834 \<notin> set (snd r)" if "r \<in> set (sched rs)" for r
    proof -
      from that perm have "r \<in> set rs"
        by (metis set_mset_mset)
      with invoke_all_results [OF rs] obtain c h where c: "c \<in> set sel" "helper c = Some h"
        "invoke h (markdown st) (parameters c) = Some (snd r)"
        by blast
      from c(1) sel run_state_ids [OF executed.hyps(1)] obtain nm where "helper c = H nm"
        by blast
      with c(2,3) out show ?thesis by metis
    qed
    then have "\<forall>r\<in>set (sched rs). 8834 \<notin> set (snd r)"
      by blast
    from settle_tokens [OF ts(2) this] obtain ts' where
      "settle (sched rs) (render ts) = render ts'" "Plain 8834 \<notin> set ts'"
      "\<forall>k. Token k \<in> set ts' \<longrightarrow> Token k \<in> set ts"
      by blast
    with md ts show ?thesis
      by (intro exI [of _ ts']) auto
  qed
next
  case (again st idx)
  then show ?case by simp
qed

text \<open>The state that \<^verbatim>\<open>play\<close> returns is one of these states.\<close>

lemma play_run_state:
  assumes "play sched H md cmds idx = Some (Inr st)"
    and "run_state sched H doc Calling \<lparr>markdown = md, commands = cmds, change = ch\<rparr> idx"
  shows "\<exists>idx'. run_state sched H doc Executed st idx'"
proof -
  let ?P = "\<lambda>sched H md cmds idx (y :: error + state). \<forall>ch st. y = Inr st \<longrightarrow>
      run_state sched H doc Calling \<lparr>markdown = md, commands = cmds, change = ch\<rparr> idx \<longrightarrow>
      (\<exists>idx'. run_state sched H doc Executed st idx')"
  have step: "?P sched H md cmds idx y"
    if IH: "\<And>sched H md cmds idx y. play' sched H md cmds idx = Some y \<Longrightarrow> ?P sched H md cmds idx y"
      and unfold: "(case parse H md cmds idx of
          Inl e \<Rightarrow> Some (Inl e)
        | Inr (st, idx') \<Rightarrow>
            (case execute sched st of
               Inl e \<Rightarrow> Some (Inl e)
             | Inr st' \<Rightarrow>
                 if \<not> change st' \<and> notExecuted (commands st') = [] then Some (Inr st')
                 else play' sched H (markdown st') (commands st') idx')) = Some y"
    for play' sched H md cmds idx y
  proof (intro allI impI)
    fix ch st
    assume y: "y = Inr st"
      and r: "run_state sched H doc Calling \<lparr>markdown = md, commands = cmds, change = ch\<rparr> idx"
    from unfold y obtain st1 idx1 st2 where
      p: "parse H md cmds idx = Inr (st1, idx1)" and e: "execute sched st1 = Inr st2"
      by (auto split: sum.splits if_splits)
    from r p have r1: "run_state sched H doc Parsed st1 idx1"
      by (intro run_state.parsed [OF r]) simp
    from run_state.executed [OF r1 e] have r2: "run_state sched H doc Executed st2 idx1" .
    show "\<exists>idx'. run_state sched H doc Executed st idx'"
    proof (cases "\<not> change st2 \<and> notExecuted (commands st2) = []")
      case True
      with unfold y p e have "st = st2" by simp
      with r2 show ?thesis by blast
    next
      case False
      with unfold p e have again: "play' sched H (markdown st2) (commands st2) idx1 = Some y"
        by auto
      from False have "run_state sched H doc Calling st2 idx1"
        by (intro run_state.again [OF r2]) blast
      then have "run_state sched H doc Calling
          \<lparr>markdown = markdown st2, commands = commands st2, change = change st2\<rparr> idx1"
        by (cases st2) simp
      with IH [OF again] y show ?thesis
        by blast
    qed
  qed
  have "?P sched H md cmds idx (Inr st)"
    by (rule play.raw_induct [where P = ?P, OF step assms(1)])
  with assms(2) show ?thesis by blast
qed


text \<open>
  C5, as the code has it. In every state of a run the binding indices of the commands are
  1, 2, ... up to the current value of \<^verbatim>\<open>bindingIndex\<close>, in this order, so none is reused or
  skipped and no two commands share one. When neither the document nor any result of a
  helper contains U+2282, the opening delimiter of a token, and the promises of a round are
  fulfilled in some order, every placeholder token that occurs in the text of the state
  has the binding index of exactly one command.
\<close>

theorem binding_identifiers:
  assumes "run_state sched H doc ph st idx"
  shows "map bindingIndex (commands st) = [1..<Suc idx] \<and>
         distinct (map bindingIndex (commands st)) \<and>
         (8834 \<notin> set doc \<and>
          (\<forall>nm h md p v. H nm = Some h \<longrightarrow> invoke h md p = Some v \<longrightarrow> 8834 \<notin> set v) \<and>
          (\<forall>rs. mset (sched rs) = mset rs) \<longrightarrow>
          (\<forall>k. index_of (placeholder k) (markdown st) \<noteq> None \<longrightarrow>
             length (filter (\<lambda>c. bindingIndex c = k) (commands st)) = 1))"
proof (intro conjI impI allI)
  show ids: "map bindingIndex (commands st) = [1..<Suc idx]"
    using run_state_ids [OF assms] by blast
  then show d: "distinct (map bindingIndex (commands st))"
    by simp
  fix k
  assume hyps: "8834 \<notin> set doc \<and>
      (\<forall>nm h md p v. H nm = Some h \<longrightarrow> invoke h md p = Some v \<longrightarrow> 8834 \<notin> set v) \<and>
      (\<forall>rs. mset (sched rs) = mset rs)"
    and occ: "index_of (placeholder k) (markdown st) \<noteq> None"
  from hyps have "8834 \<notin> set doc"
    "\<forall>nm h md p v. H nm = Some h \<longrightarrow> invoke h md p = Some v \<longrightarrow> 8834 \<notin> set v"
    "\<forall>rs. mset (sched rs) = mset rs"
    by blast+
  from run_state_tokens [OF this assms] obtain ts where ts: "markdown st = render ts"
    "Plain 8834 \<notin> set ts" "\<forall>k. Token k \<in> set ts \<longrightarrow> 1 \<le> k \<and> k \<le> idx"
    by blast
  from occ have "Token k \<in> set ts"
    unfolding ts(1) index_of_render [OF ts(2)] by (simp split: if_splits)
  with ts(3) have "k \<in> set [1..<Suc idx]"
    by auto
  then have "k \<in> bindingIndex ` set (commands st)"
    unfolding ids [symmetric] by simp
  from one_record [OF d this] show "length (filter (\<lambda>c. bindingIndex c = k) (commands st)) = 1" .
qed

theorem binding_identifiers_witness:
  "run_state id helpers_x_y doc_x_y Parsed state_x_y 2 \<and>
   map bindingIndex (commands state_x_y) = [1, 2] \<and>
   8834 \<notin> set doc_x_y \<and>
   index_of (placeholder 2) (markdown state_x_y) = Some 6 \<and>
   length (filter (\<lambda>c. bindingIndex c = 2) (commands state_x_y)) = 1"
proof -
  have p: "parse helpers_x_y (markdown \<lparr>markdown = doc_x_y, commands = [], change = False\<rparr>)
      (commands \<lparr>markdown = doc_x_y, commands = [], change = False\<rparr>) 0 = Inr (state_x_y, 2)"
    by (simp add: helpers_x_y_def doc_x_y_def state_x_y_def eval_helpers eval_scan eval_json)
  have r: "run_state id helpers_x_y doc_x_y Parsed state_x_y 2"
    by (rule run_state.parsed [OF run_state.start p])
  have h1: "8834 \<notin> set doc_x_y"
    by (simp add: doc_x_y_def str_def)
  have h2: "\<forall>nm h md p v. helpers_x_y nm = Some h \<longrightarrow> invoke h md p = Some v \<longrightarrow> 8834 \<notin> set v"
    by (auto simp: helpers_x_y_def registry_of_def constant_helper_def str_def
        split: option.splits json.splits if_splits)
  have h3: "\<forall>rs :: (nat \<times> jsstring) list. mset (id rs) = mset rs"
    by simp
  have i: "index_of (placeholder 2) (markdown state_x_y) = Some 6"
    by (simp add: state_x_y_def eval_scan)
  show ?thesis
    using r h1 h2 h3 i binding_identifiers [OF r]
    by (simp add: state_x_y_def)
qed

text \<open>
  The claim as stated fails: a document may contain the text of a token. After the first
  scan of such a document the token with the number 7 is in the text and no command has
  that binding index.
\<close>

theorem binding_identifiers_counterexample:
  "map_sum id
     (\<lambda>(st, idx). (markdown st, index_of (placeholder 7) (markdown st),
        map bindingIndex (commands st), filter (\<lambda>c. bindingIndex c = 7) (commands st) = []))
     (parse helpers_x_y doc_token_text [] 0) =
     Inr (placeholder 7 @ str '' '' @ placeholder 1, Some 0, [1], True)"
  by (simp add: helpers_x_y_def doc_token_text_def eval_helpers eval_scan eval_json)

end
